theory Spec2Isabelle
  imports Complex_Main "HOL-Library.Multiset"
begin

section \<open>pg-dump-cache: the cache server (server.ts)\<close>

text \<open>
  The server keeps three module-level variables (\<open>latestCache\<close>, \<open>refreshing\<close>,
  \<open>refreshPromise\<close>) and runs on a single-threaded event loop: code between two
  \<open>await\<close>s runs without interruption. The model below is a transition system whose
  events are exactly those uninterrupted blocks. Everything outside the program (the clock,
  the cache directory, the \<open>pg_dump\<close> process) is part of the state or of the event.
\<close>

subsection \<open>JavaScript numbers\<close>

text \<open>
  \<open>TTL\<close>, \<open>KEEP_COUNT\<close> and the \<open>ttl\<close> query parameter are results of \<open>Number(...)\<close>,
  so they may be \<open>NaN\<close> or infinite. Finite values are taken as exact rationals; the
  rounding of IEEE doubles is not modelled.
\<close>

datatype jsnum = Fin rat | PosInf | NegInf | NaN

text \<open>The comparison \<open>a > b\<close> of two numbers; every comparison with \<open>NaN\<close> is false.\<close>

fun js_gt :: "jsnum \<Rightarrow> jsnum \<Rightarrow> bool" where
  "js_gt (Fin a) (Fin b) = (b < a)"
| "js_gt (Fin a) NegInf = True"
| "js_gt PosInf (Fin b) = True"
| "js_gt PosInf NegInf = True"
| "js_gt _ _ = False"

text \<open>\<open>ToIntegerOrInfinity\<close> on a finite number: truncation towards zero.\<close>

definition trunc :: "rat \<Rightarrow> int" where
  "trunc r = (if 0 \<le> r then \<lfloor>r\<rfloor> else \<lceil>r\<rceil>)"

text \<open>\<open>Math.round\<close>: the nearest integer, halves rounded up.\<close>

definition math_round :: "rat \<Rightarrow> int" where
  "math_round r = \<lfloor>r + 1 / 2\<rfloor>"

text \<open>
  \<open>xs.slice(start)\<close> with one argument: \<open>NaN\<close> counts as 0, a negative start counts
  from the end, and the start is clamped to the length.
\<close>

fun slice_from :: "jsnum \<Rightarrow> 'a list \<Rightarrow> 'a list" where
  "slice_from NaN xs = xs"
| "slice_from NegInf xs = xs"
| "slice_from PosInf xs = []"
| "slice_from (Fin r) xs =
     (if trunc r < 0 then drop (nat (max (int (length xs) + trunc r) 0)) xs
      else drop (nat (trunc r)) xs)"

subsection \<open>Dump file names\<close>

definition endsWith :: "string \<Rightarrow> string \<Rightarrow> bool" where
  "endsWith f suffix = (length suffix \<le> length f \<and> drop (length f - length suffix) f = suffix)"

text \<open>The class \<open>\d\<close> of a regular expression without the unicode flag: \<open>0\<close> to \<open>9\<close>.\<close>

definition is_digit :: "char \<Rightarrow> bool" where
  "is_digit c = (48 \<le> (of_char c :: int) \<and> (of_char c :: int) \<le> 57)"

definition digit_val :: "char \<Rightarrow> int" where
  "digit_val c = of_char c - 48"

text \<open>
  The integers that a double holds exactly and without a neighbour that rounds to it
  (\<open>Number.isSafeInteger\<close>), and the time values of a valid \<open>Date\<close>.
\<close>

definition safe_integer :: "int \<Rightarrow> bool" where
  "safe_integer n = (\<bar>n\<bar> \<le> 9007199254740991)"


text \<open>
  \<open>Number(match[1])\<close> on a string of decimal digits, as the integer that the digits
  denote. This is the value of the code exactly when that integer is safe (epoch
  milliseconds are); a longer number is rounded by the code to the nearest double, so that
  two names with different digits can carry the same instant there. Every statement below
  that depends on the order of such instants assumes them safe.
\<close>

definition number_of_digits :: "string \<Rightarrow> int" where
  "number_of_digits ds = foldl (\<lambda>a c. 10 * a + digit_val c) 0 ds"

text \<open>\<open>f.match(/^dump-(\d+)\.tar\.gz$/)\<close>: the captured group, if the name matches.\<close>

definition match_dump :: "string \<Rightarrow> string option" where
  "match_dump f =
     (let ds = drop 5 (take (length f - 7) f)
      in if take 5 f = ''dump-'' \<and> endsWith f ''.tar.gz'' \<and> ds \<noteq> [] \<and> list_all is_digit ds
         then Some ds else None)"

definition dump_timestamp :: "string \<Rightarrow> int option" where
  "dump_timestamp f = map_option number_of_digits (match_dump f)"

text \<open>The decimal digits of an integer, as a template literal prints \<open>timestamp.getTime()\<close>.\<close>

function decimal :: "int \<Rightarrow> string" where
  "decimal n =
     (if n < 0 then CHR ''-'' # decimal (- n)
      else if n < 10 then [char_of (48 + n)]
      else decimal (n div 10) @ [char_of (48 + n mod 10)])"
  by pat_completeness auto
termination
  by (relation "measure (\<lambda>n. if n < 0 then Suc (nat (- n)) else nat n)") auto

declare decimal.simps [simp del]

definition dump_filename :: "int \<Rightarrow> string" where
  "dump_filename t = ''dump-'' @ decimal t @ ''.tar.gz''"

text \<open>
  \<open>join(CACHE_DIR, file)\<close>. The normalisation that \<open>path.join\<close> performs is left out:
  every path of the program is built by this one function from the same directory.
\<close>

definition join_path :: "string \<Rightarrow> string \<Rightarrow> string" where
  "join_path d f = d @ ''/'' @ f"

text \<open>\<open>path.split("/").pop()\<close>: the text after the last slash.\<close>

definition last_segment :: "string \<Rightarrow> string" where
  "last_segment p = rev (takeWhile (\<lambda>c. c \<noteq> CHR ''/'') (rev p))"

subsection \<open>Errors\<close>

datatype error =
    PgDumpFailed int string
  | WriteFailed
  | ReaddirFailed
  | RmFailed string

subsection \<open>Retention: \<open>cleanupOldDumps\<close>\<close>

text \<open>
  The listing after \<open>filter\<close>, \<open>map\<close>, \<open>filter\<close> (lines 96 to 102): the names that end
  in \<open>.tar.gz\<close> and match the pattern, each with its parsed instant, in listing order.
\<close>

definition parsed_dumps :: "string list \<Rightarrow> (string \<times> int) list" where
  "parsed_dumps files =
     List.map_filter (\<lambda>f. map_option (Pair f) (dump_timestamp f))
       (filter (\<lambda>f. endsWith f ''.tar.gz'') files)"

text \<open>
  \<open>.sort((a, b) => b.timestamp - a.timestamp)\<close>: descending by instant; the sort of the
  language is stable, as is insertion sort on the negated key.
\<close>

definition dumpFiles :: "string list \<Rightarrow> (string \<times> int) list" where
  "dumpFiles files = sort_key (\<lambda>e. - snd e) (parsed_dumps files)"

definition toDelete :: "jsnum \<Rightarrow> string list \<Rightarrow> string list" where
  "toDelete keep files = map fst (slice_from keep (dumpFiles files))"

text \<open>
  The loop of lines 106 to 110 over a directory listing \<open>d\<close>. \<open>rm\<close> rejects for a name in
  \<open>locked\<close> (no permission) and for a name that is not there; the rejection leaves the loop
  and the function at once, and the directory as it is at that moment.
\<close>

fun rm_loop :: "string list \<Rightarrow> string list \<Rightarrow> string list \<Rightarrow> error option \<times> string list" where
  "rm_loop [] locked d = (None, d)"
| "rm_loop (f # fs) locked d =
     (if f \<in> set locked \<or> f \<notin> set d then (Some (RmFailed f), d)
      else rm_loop fs locked (removeAll f d))"

definition cleanupOldDumps :: "jsnum \<Rightarrow> bool \<Rightarrow> string list \<Rightarrow> string list \<Rightarrow> error option \<times> string list" where
  "cleanupOldDumps keep readdir_ok locked d =
     (if \<not> readdir_ok then (Some ReaddirFailed, d)
      else rm_loop (toDelete keep d) locked d)"

subsection \<open>The state\<close>

record config =
  CACHE_DIR :: string
  TTL :: jsnum
  KEEP_COUNT :: jsnum

text \<open>A \<open>Date\<close> is its time value, the milliseconds since the epoch.\<close>

record CacheEntry =
  path :: string
  timestamp :: int

text \<open>
  A running \<open>doRefresh\<close> is either inside \<open>performDump\<close>, waiting for \<open>pg_dump\<close>
  (with the \<open>timestamp\<close> taken on line 57), or inside \<open>cleanupOldDumps\<close>.
\<close>

datatype phase = Dumping int | Cleaning

text \<open>Who awaits \<open>ensureFreshCache\<close>: a direct caller (line 157), the handler of
  \<open>/dump\<close> (line 181) or the handler of \<open>/refresh\<close> (line 226).\<close>

datatype kont = Direct | ForDump | ForRefresh

datatype body =
    StatusBody bool "int option" "jsnum option" bool jsnum
  | ErrorRetryable string bool
  | ErrorRefreshing string bool
  | RefreshOk bool "int option"
  | RefreshFailed string error
  | PlainText string
  | FileBody string string jsnum int
  | Uncaught

datatype response = Response (status_code: int) (body: body)

text \<open>
  A suspended or finished call. \<open>InLoop\<close> is line 125 (with the value of \<open>refreshPromise\<close>
  that is awaited), \<open>AtEnd\<close> is line 138, \<open>Exists\<close> is line 197.
\<close>

datatype task =
    InLoop jsnum "nat option" kont
  | AtEnd nat kont
  | Exists string
  | Returned "CacheEntry option"
  | Threw error
  | Replied response

text \<open>
  Promises are named by numbers. \<open>jobs\<close> holds the running \<open>doRefresh\<close> calls by the name
  of their promise, \<open>settled\<close> the promises that are fulfilled (\<open>None\<close>) or rejected.
  \<open>generations\<close> counts the calls of \<open>performDump\<close>. \<open>store\<close> is the listing of the cache
  directory and \<open>locked\<close> the names that \<open>rm\<close> cannot delete. \<open>exited\<close> says that the
  process has ended on an unhandled rejection; the events stay defined on such a state and
  say what the code would do, but the real process does nothing after that.
\<close>

record state =
  latestCache :: "CacheEntry option"
  refreshing :: bool
  refreshPromise :: "nat option"
  clock :: int
  store :: "string list"
  locked :: "string list"
  jobs :: "(nat \<times> phase) list"
  settled :: "(nat \<times> error option) list"
  tasks :: "task list"
  generations :: nat
  exited :: bool

subsection \<open>The coordinator\<close>

text \<open>
  Line 26, with the exact quotient where the code divides doubles. For a valid time value
  and a safe difference the comparison with a threshold of whole seconds has the same
  result in both; for a threshold with a fraction the rounding of the quotient can decide,
  and it is not modelled. An entry loaded from a name whose number is beyond the time
  values of a \<open>Date\<close> has an invalid timestamp in the code; the statements about staleness
  assume a valid one.
\<close>

definition age_seconds :: "int \<Rightarrow> CacheEntry \<Rightarrow> rat" where
  "age_seconds now e = of_int (now - timestamp e) / 1000"

definition getCacheAgeSeconds :: "state \<Rightarrow> jsnum" where
  "getCacheAgeSeconds s =
     (case latestCache s of None \<Rightarrow> PosInf | Some e \<Rightarrow> Fin (age_seconds (clock s) e))"

definition needsRefresh :: "jsnum \<Rightarrow> state \<Rightarrow> bool" where
  "needsRefresh ttl s = (latestCache s = None \<or> js_gt (getCacheAgeSeconds s) ttl)"

text \<open>
  \<open>loadExistingDumps\<close>: the newest dump of the directory, if there is one. It runs once,
  before anything else.
\<close>

definition loadExistingDumps :: "config \<Rightarrow> string list \<Rightarrow> CacheEntry option" where
  "loadExistingDumps cfg files =
     (case dumpFiles files of
        [] \<Rightarrow> None
      | e # _ \<Rightarrow> Some \<lparr>path = join_path (CACHE_DIR cfg) (fst e), timestamp = snd e\<rparr>)"

definition start :: "config \<Rightarrow> int \<Rightarrow> string list \<Rightarrow> string list \<Rightarrow> state" where
  "start cfg now files lk =
     \<lparr>latestCache = loadExistingDumps cfg files, refreshing = False, refreshPromise = None,
      clock = now, store = files, locked = lk, jobs = [], settled = [], tasks = [],
      generations = 0, exited = False\<rparr>"

text \<open>
  Lines 132 to 136 (and 146 to 150): the flag, then \<open>doRefresh()\<close>, which runs
  \<open>performDump\<close> up to its first \<open>await\<close> and so takes the timestamp and spawns the process,
  then the assignment of the promise.
\<close>

definition startRefresh :: "state \<Rightarrow> state" where
  "startRefresh s =
     s\<lparr>refreshing := True,
       refreshPromise := Some (generations s),
       jobs := jobs s @ [(generations s, Dumping (clock s))],
       generations := Suc (generations s)\<rparr>"

text \<open>A task awaits the promise \<open>h\<close>: it is suspended on line 125 or 138 with that promise.\<close>

definition awaits :: "task \<Rightarrow> nat \<Rightarrow> bool" where
  "awaits t h =
     (case t of InLoop ttl (Some h') k \<Rightarrow> h' = h | AtEnd h' k \<Rightarrow> h' = h | _ \<Rightarrow> False)"

text \<open>
  The end of a \<open>doRefresh\<close>: the callback of \<open>finally\<close> clears both variables, then the
  promise that \<open>finally\<close> returned settles with the same outcome. The only handlers of
  that promise are the \<open>await\<close>s of lines 125 and 138. \<open>triggerRefresh\<close> attaches none, so
  when the promise is rejected and no task awaits it, the rejection is unhandled and the
  runtime ends the process.
\<close>

definition settle :: "nat \<Rightarrow> error option \<Rightarrow> state \<Rightarrow> state" where
  "settle h r s =
     s\<lparr>refreshing := False,
       refreshPromise := None,
       jobs := filter (\<lambda>j. fst j \<noteq> h) (jobs s),
       settled := (h, r) # settled s,
       exited := (exited s \<or> (r \<noteq> None \<and> \<not> list_ex (\<lambda>t. awaits t h) (tasks s)))\<rparr>"

definition triggerRefresh :: "jsnum \<Rightarrow> state \<Rightarrow> state" where
  "triggerRefresh ttl s = (if refreshing s \<or> \<not> needsRefresh ttl s then s else startRefresh s)"

subsection \<open>The handlers\<close>

record request =
  req_method :: string
  pathname :: string
  wait_param :: "string option"
  ttl_param :: "jsnum option"
  authorization :: "string option"

definition round_num :: "jsnum \<Rightarrow> jsnum" where
  "round_num n = (case n of Fin r \<Rightarrow> Fin (of_int (math_round r)) | _ \<Rightarrow> n)"

definition status_response :: "config \<Rightarrow> state \<Rightarrow> response" where
  "status_response cfg s =
     Response 200
       (StatusBody (latestCache s \<noteq> None)
          (map_option timestamp (latestCache s))
          (if latestCache s \<noteq> None then Some (round_num (getCacheAgeSeconds s)) else None)
          (refreshing s)
          (TTL cfg))"

definition file_exists :: "config \<Rightarrow> state \<Rightarrow> string \<Rightarrow> bool" where
  "file_exists cfg s p = (p \<in> set (map (join_path (CACHE_DIR cfg)) (store s)))"

text \<open>Lines 189 to 197 of the handler of \<open>/dump\<close>, up to \<open>await file.exists()\<close>.\<close>

definition dump_serve :: "state \<Rightarrow> task" where
  "dump_serve s =
     (case latestCache s of
        None \<Rightarrow> Replied (Response 503 (ErrorRetryable ''No cached dump available'' True))
      | Some e \<Rightarrow> Exists (path e))"

text \<open>
  Lines 199 to 214, once \<open>exists\<close> is known for the path \<open>p\<close> read on line 196. The headers
  read \<open>latestCache\<close> again; if it is \<open>null\<close> by then, the property access throws.
\<close>

definition dump_after_exists :: "config \<Rightarrow> string \<Rightarrow> state \<Rightarrow> task \<times> state" where
  "dump_after_exists cfg p s =
     (if \<not> file_exists cfg s p
      then (Replied (Response 503 (ErrorRetryable ''Cache file missing'' True)),
            s\<lparr>latestCache := None\<rparr>)
      else (case latestCache s of
              None \<Rightarrow> (Replied (Response 500 Uncaught), s)
            | Some e \<Rightarrow>
                (Replied (Response 200
                   (FileBody p (last_segment (path e))
                      (round_num (Fin (age_seconds (clock s) e / 60))) (timestamp e))), s)))"

definition after_ensure :: "kont \<Rightarrow> state \<Rightarrow> task" where
  "after_ensure k s =
     (case k of
        Direct \<Rightarrow> Returned (latestCache s)
      | ForDump \<Rightarrow> dump_serve s
      | ForRefresh \<Rightarrow> Replied (Response 200 (RefreshOk True (map_option timestamp (latestCache s)))))"

definition after_throw :: "kont \<Rightarrow> error \<Rightarrow> task" where
  "after_throw k e =
     (case k of
        Direct \<Rightarrow> Threw e
      | ForDump \<Rightarrow> Replied (Response 500 (PlainText ''Refresh failed''))
      | ForRefresh \<Rightarrow> Replied (Response 500 (RefreshFailed ''Refresh failed'' e)))"

text \<open>
  \<open>ensureFreshCache\<close> from the head of its loop to its first \<open>await\<close> or to its return,
  together with what its caller does on return.
\<close>

definition ensureFreshCache :: "jsnum \<Rightarrow> kont \<Rightarrow> state \<Rightarrow> task \<times> state" where
  "ensureFreshCache ttl k s =
     (if refreshing s then (InLoop ttl (refreshPromise s) k, s)
      else if \<not> needsRefresh ttl s then (after_ensure k s, s)
      else (AtEnd (generations s) k, startRefresh s))"

definition fetch :: "config \<Rightarrow> request \<Rightarrow> state \<Rightarrow> task \<times> state" where
  "fetch cfg req s =
     (let ttl = (case ttl_param req of None \<Rightarrow> TTL cfg | Some n \<Rightarrow> n)
      in if req_method req = ''GET'' \<and> pathname req = ''/status''
         then (Replied (status_response cfg s), s)
         else if req_method req = ''GET'' \<and> pathname req = ''/dump''
         then (if wait_param req = Some ''true''
               then ensureFreshCache ttl ForDump s
               else (dump_serve (triggerRefresh ttl s), triggerRefresh ttl s))
         else if req_method req = ''POST'' \<and> pathname req = ''/refresh''
         then (if refreshing s
               then (Replied (Response 409 (ErrorRefreshing ''Refresh already in progress'' True)), s)
               else ensureFreshCache (Fin 0) ForRefresh s)
         else (Replied (Response 404 (PlainText ''Not found'')), s))"

subsection \<open>The event loop\<close>

text \<open>
  \<open>ClockSet\<close>: the wall clock reads a new value. \<open>Call\<close>: \<open>ensureFreshCache(ttl)\<close> is
  called directly. \<open>Request\<close>: a request arrives and its handler runs to its first
  suspension. \<open>DumpExit h\<close>: the process of the refresh \<open>h\<close> has exited with this code and
  diagnostic output and, for code 0, \<open>Bun.write\<close> has succeeded or not; \<open>doRefresh\<close> goes
  on to line 116 or rejects. \<open>CleanupDone h\<close>: the retention pass of the refresh \<open>h\<close> runs
  (its \<open>readdir\<close> succeeding or not) and \<open>doRefresh\<close> ends. \<open>Resume i\<close>: the task \<open>i\<close>
  goes on after what it awaited. \<open>Unlink f\<close>: somebody outside deletes a file.
\<close>

datatype event =
    ClockSet int
  | Call jsnum
  | Request request
  | DumpExit nat int string bool
  | CleanupDone nat bool
  | Resume nat
  | Unlink string

definition performDump_result :: "config \<Rightarrow> int \<Rightarrow> int \<Rightarrow> string \<Rightarrow> bool \<Rightarrow> error + CacheEntry" where
  "performDump_result cfg ts exitCode stderr write_ok =
     (if exitCode \<noteq> 0 then Inl (PgDumpFailed exitCode stderr)
      else if \<not> write_ok then Inl WriteFailed
      else Inr \<lparr>path = join_path (CACHE_DIR cfg) (dump_filename ts), timestamp = ts\<rparr>)"

definition write_file :: "string \<Rightarrow> string list \<Rightarrow> string list" where
  "write_file f d = (if f \<in> set d then d else d @ [f])"

definition spawn :: "task \<times> state \<Rightarrow> state" where
  "spawn r = (snd r)\<lparr>tasks := tasks (snd r) @ [fst r]\<rparr>"

definition put :: "nat \<Rightarrow> task \<times> state \<Rightarrow> state" where
  "put i r = (snd r)\<lparr>tasks := (tasks (snd r))[i := fst r]\<rparr>"

definition resume :: "config \<Rightarrow> nat \<Rightarrow> state \<Rightarrow> state" where
  "resume cfg i s =
     (case tasks s ! i of
        InLoop ttl None k \<Rightarrow> put i (ensureFreshCache ttl k s)
      | InLoop ttl (Some h) k \<Rightarrow>
          (case map_of (settled s) h of
             None \<Rightarrow> s
           | Some None \<Rightarrow> put i (ensureFreshCache ttl k s)
           | Some (Some e) \<Rightarrow> put i (after_throw k e, s))
      | AtEnd h k \<Rightarrow>
          (case map_of (settled s) h of
             None \<Rightarrow> s
           | Some None \<Rightarrow> put i (after_ensure k s, s)
           | Some (Some e) \<Rightarrow> put i (after_throw k e, s))
      | Exists p \<Rightarrow> put i (dump_after_exists cfg p s)
      | _ \<Rightarrow> s)"

fun step :: "config \<Rightarrow> event \<Rightarrow> state \<Rightarrow> state" where
  "step cfg (ClockSet t) s = s\<lparr>clock := t\<rparr>"
| "step cfg (Call ttl) s = spawn (ensureFreshCache ttl Direct s)"
| "step cfg (Request req) s = spawn (fetch cfg req s)"
| "step cfg (DumpExit h exitCode stderr write_ok) s =
     (case map_of (jobs s) h of
        Some (Dumping ts) \<Rightarrow>
          (case performDump_result cfg ts exitCode stderr write_ok of
             Inl e \<Rightarrow> settle h (Some e) s
           | Inr entry \<Rightarrow>
               s\<lparr>latestCache := Some entry,
                 store := write_file (dump_filename ts) (store s),
                 jobs := map (\<lambda>j. if fst j = h then (h, Cleaning) else j) (jobs s)\<rparr>)
      | _ \<Rightarrow> s)"
| "step cfg (CleanupDone h readdir_ok) s =
     (case map_of (jobs s) h of
        Some Cleaning \<Rightarrow>
          settle h (fst (cleanupOldDumps (KEEP_COUNT cfg) readdir_ok (locked s) (store s)))
            (s\<lparr>store := snd (cleanupOldDumps (KEEP_COUNT cfg) readdir_ok (locked s) (store s))\<rparr>)
      | _ \<Rightarrow> s)"
| "step cfg (Resume i) s = (if i < length (tasks s) then resume cfg i s else s)"
| "step cfg (Unlink f) s = s\<lparr>store := removeAll f (store s)\<rparr>"

definition run :: "config \<Rightarrow> event list \<Rightarrow> state \<Rightarrow> state" where
  "run cfg evs s = foldl (\<lambda>s ev. step cfg ev s) s evs"

subsection \<open>The retention policy, as the specification words it\<close>

text \<open>
  The dumps of a listing that are newer than the instant \<open>t\<close>, and the policy "keep the
  \<open>k\<close> most recent": a dump stays when fewer than \<open>k\<close> dumps are newer; a file that is not
  a dump always stays.
\<close>

definition newer_dumps :: "string list \<Rightarrow> int \<Rightarrow> string set" where
  "newer_dumps files t =
     {g \<in> set files. case dump_timestamp g of None \<Rightarrow> False | Some u \<Rightarrow> t < u}"

definition kept_by_policy :: "nat \<Rightarrow> string list \<Rightarrow> string \<Rightarrow> bool" where
  "kept_by_policy k files f =
     (case dump_timestamp f of None \<Rightarrow> True | Some t \<Rightarrow> card (newer_dumps files t) < k)"

subsection \<open>Single flight\<close>

text \<open>
  The invariant of the coordinator: the flag and the promise are set and cleared together,
  and the running refreshes are exactly the one whose promise \<open>refreshPromise\<close> holds.
\<close>

definition single_flight :: "state \<Rightarrow> bool" where
  "single_flight s =
     (refreshing s = (refreshPromise s \<noteq> None) \<and>
      map fst (jobs s) = (case refreshPromise s of None \<Rightarrow> [] | Some h \<Rightarrow> [h]))"

text \<open>
  A second invariant: every promise that a task awaits, and the promise in
  \<open>refreshPromise\<close>, was made by a refresh that has been started.
\<close>

definition handles_known :: "state \<Rightarrow> bool" where
  "handles_known s =
     ((\<forall>t\<in>set (tasks s). \<forall>h. awaits t h \<longrightarrow> h < generations s) \<and>
      (\<forall>h. refreshPromise s = Some h \<longrightarrow> h < generations s))"


text \<open>The tasks \<open>n\<close> to \<open>n + k - 1\<close> go on, in the order in which they were suspended.\<close>

definition resume_all :: "nat \<Rightarrow> nat \<Rightarrow> event list" where
  "resume_all n k = map Resume [n..<n + k]"

subsection \<open>A configuration and some requests for the examples\<close>

definition cfg_keep1 :: config where
  "cfg_keep1 = \<lparr>CACHE_DIR = ''cache'', TTL = Fin 3600, KEEP_COUNT = Fin 1\<rparr>"

definition get_dump :: request where
  "get_dump = \<lparr>req_method = ''GET'', pathname = ''/dump'', wait_param = None, ttl_param = None, authorization = None\<rparr>"



definition get_dump_wait :: request where
  "get_dump_wait = \<lparr>req_method = ''GET'', pathname = ''/dump'', wait_param = Some ''true'', ttl_param = None, authorization = None\<rparr>"

definition get_dump_wait_ttl0 :: request where
  "get_dump_wait_ttl0 = \<lparr>req_method = ''GET'', pathname = ''/dump'', wait_param = Some ''true'', ttl_param = Some (Fin 0), authorization = None\<rparr>"

section \<open>Staleness\<close>



section \<open>Retention\<close>

lemma match_dump_endsWith: "match_dump f = Some ds \<Longrightarrow> endsWith f ''.tar.gz''"
  by (simp add: match_dump_def Let_def split: if_splits)

lemma dump_timestamp_endsWith: "dump_timestamp f = Some t \<Longrightarrow> endsWith f ''.tar.gz''"
  by (auto simp: dump_timestamp_def dest: match_dump_endsWith)

lemma parsed_dumps_eq:
  "parsed_dumps files =
     map (\<lambda>f. (f, the (dump_timestamp f))) (filter (\<lambda>f. dump_timestamp f \<noteq> None) files)"
proof -
  have "filter (\<lambda>f. endsWith f ''.tar.gz'' \<and> dump_timestamp f \<noteq> None) files
      = filter (\<lambda>f. dump_timestamp f \<noteq> None) files"
    by (rule filter_cong) (auto simp: filter_filter dest: dump_timestamp_endsWith)
  moreover have "map (the \<circ> (\<lambda>f. map_option (Pair f) (dump_timestamp f))) (filter (\<lambda>f. dump_timestamp f \<noteq> None) xs)
      = map (\<lambda>f. (f, the (dump_timestamp f))) (filter (\<lambda>f. dump_timestamp f \<noteq> None) xs)" for xs
    by (rule map_cong) auto
  ultimately show ?thesis
    by (simp add: parsed_dumps_def List.map_filter_def conj_commute)
qed

lemma fst_parsed_dumps: "map fst (parsed_dumps files) = filter (\<lambda>f. dump_timestamp f \<noteq> None) files"
  by (simp add: parsed_dumps_eq comp_def)

lemma drop_strict_desc:
  "sorted_wrt (\<lambda>a b. key b < key a) xs \<Longrightarrow>
     x \<in> set (drop k xs) \<longleftrightarrow> x \<in> set xs \<and> k \<le> card {y \<in> set xs. (key x :: int) < key y}"
proof (induction xs arbitrary: k)
  case Nil
  then show ?case by simp
next
  case (Cons a as)
  show ?case
  proof (cases k)
    case 0
    then show ?thesis by simp
  next
    case (Suc j)
    have sa: "sorted_wrt (\<lambda>a b. key b < key a) as" and lt: "\<forall>y\<in>set as. key y < key a"
      using Cons.prems by auto
    have IH: "x \<in> set (drop j as) \<longleftrightarrow> x \<in> set as \<and> j \<le> card {y \<in> set as. key x < key y}"
      using Cons.IH [OF sa] .
    show ?thesis
    proof (cases "x \<in> set as")
      case True
      then have "key x < key a" using lt by blast
      then have "{y \<in> set (a # as). key x < key y} = insert a {y \<in> set as. key x < key y}"
        by auto
      moreover have "a \<notin> {y \<in> set as. key x < key y}" using lt by auto
      ultimately have "card {y \<in> set (a # as). key x < key y} = Suc (card {y \<in> set as. key x < key y})"
        by simp
      then show ?thesis using True IH Suc by simp
    next
      case False
      then have nd: "x \<notin> set (drop j as)" by (meson in_set_dropD)
      show ?thesis
      proof (cases "x = a")
        case True
        have "{y \<in> set (a # as). key a < key y} = {}" using lt by auto
        then have "card {y \<in> set (a # as). key x < key y} = 0"
          unfolding True by (simp only: card.empty)
        then have "\<not> k \<le> card {y \<in> set (a # as). key x < key y}"
          unfolding Suc by linarith
        moreover have "x \<notin> set (drop k (a # as))" using nd Suc by simp
        ultimately show ?thesis by blast
      next
        case ne: False
        then have "x \<notin> set (a # as)" using False by simp
        moreover have "x \<notin> set (drop k (a # as))" using nd Suc by simp
        ultimately show ?thesis by blast
      qed
    qed
  qed
qed

lemma mset_dumpFiles: "mset (dumpFiles files) = mset (parsed_dumps files)"
  by (simp add: dumpFiles_def)

lemma set_dumpFiles: "set (dumpFiles files) = set (parsed_dumps files)"
  by (simp add: dumpFiles_def)

lemma length_dumpFiles: "length (dumpFiles files) = length (parsed_dumps files)"
  by (simp add: dumpFiles_def)

lemma distinct_map_dumpFiles:
  "distinct (map f (dumpFiles files)) \<longleftrightarrow> distinct (map f (parsed_dumps files))"
proof -
  have "mset (map f (dumpFiles files)) = mset (map f (parsed_dumps files))"
    by (simp add: mset_dumpFiles)
  then show ?thesis by (rule mset_eq_imp_distinct_iff)
qed

lemma desc_strict:
  "sorted (map (\<lambda>e. - snd e) (xs :: ('a \<times> int) list)) \<Longrightarrow> distinct (map snd xs) \<Longrightarrow>
     sorted_wrt (\<lambda>a b. snd b < snd a) xs"
proof (induction xs)
  case Nil
  then show ?case by simp
next
  case (Cons a xs)
  have "snd y < snd a" if "y \<in> set xs" for y
  proof -
    have "snd y \<le> snd a" using Cons.prems(1) that by auto
    moreover have "snd a \<notin> snd ` set xs" using Cons.prems(2) by simp
    then have "snd y \<noteq> snd a" using that by (metis imageI)
    ultimately show ?thesis by simp
  qed
  then show ?case using Cons by simp
qed

lemma dumpFiles_strict:
  assumes "distinct (map snd (parsed_dumps files))"
  shows "sorted_wrt (\<lambda>a b. snd b < snd a) (dumpFiles files)"
proof (rule desc_strict)
  show "sorted (map (\<lambda>e. - snd e) (dumpFiles files))"
    by (simp add: dumpFiles_def)
  show "distinct (map snd (dumpFiles files))"
    using assms by (simp add: distinct_map_dumpFiles)
qed

lemma distinct_fst_parsed:
  assumes "distinct (map snd (parsed_dumps files))"
  shows "distinct (map fst (parsed_dumps files))"
proof -
  have "map snd (parsed_dumps files) = map (\<lambda>f. the (dump_timestamp f)) (map fst (parsed_dumps files))"
    by (simp add: parsed_dumps_eq comp_def)
  with assms show ?thesis by (metis distinct_map)
qed

lemma rm_loop_all:
  "distinct vs \<Longrightarrow> set vs \<subseteq> set d \<Longrightarrow> set vs \<inter> set lk = {} \<Longrightarrow>
     rm_loop vs lk d = (None, filter (\<lambda>f. f \<notin> set vs) d)"
proof (induction vs arbitrary: d)
  case Nil
  then show ?case by simp
next
  case (Cons v vs)
  have "rm_loop vs lk (removeAll v d) = (None, filter (\<lambda>f. f \<notin> set vs) (removeAll v d))"
    using Cons.prems by (intro Cons.IH) auto
  moreover have "filter (\<lambda>f. f \<notin> set vs) (removeAll v d) = filter (\<lambda>f. f \<notin> set (v # vs)) d"
    by (induction d) auto
  ultimately show ?case using Cons.prems by simp
qed

lemma trunc_of_nat: "trunc (of_nat k) = int k"
  by (simp add: trunc_def)

lemma slice_from_nat: "slice_from (Fin (of_nat k)) xs = drop k xs"
  by (simp add: trunc_of_nat)

lemma set_parsed_dumps:
  "set (parsed_dumps files) = {(g, u). g \<in> set files \<and> dump_timestamp g = Some u}"
  by (auto simp: parsed_dumps_eq)

lemma card_newer:
  "card {y \<in> set (parsed_dumps files). t < snd y} = card (newer_dumps files t)"
proof -
  have "{y \<in> set (parsed_dumps files). t < snd y}
      = (\<lambda>g. (g, the (dump_timestamp g))) ` newer_dumps files t"
    by (auto simp: set_parsed_dumps newer_dumps_def image_iff split: option.splits)
  moreover have "inj_on (\<lambda>g. (g, the (dump_timestamp g))) (newer_dumps files t)"
    by (rule inj_onI) simp
  ultimately show ?thesis by (simp add: card_image)
qed

lemma toDelete_iff:
  assumes "distinct (map snd (parsed_dumps files))"
  shows "f \<in> set (toDelete (Fin (of_nat k)) files) \<longleftrightarrow> f \<in> set files \<and> \<not> kept_by_policy k files f"
proof -
  let ?ys = "dumpFiles files"
  have mem: "(f, t) \<in> set (drop k ?ys) \<longleftrightarrow>
      (f, t) \<in> set (parsed_dumps files) \<and> k \<le> card (newer_dumps files t)" for t
    using drop_strict_desc [OF dumpFiles_strict [OF assms], of "(f, t)" k]
    by (simp add: set_dumpFiles card_newer)
  have "f \<in> set (toDelete (Fin (of_nat k)) files) \<longleftrightarrow> (\<exists>t. (f, t) \<in> set (drop k ?ys))"
    by (force simp: toDelete_def slice_from_nat simp del: slice_from.simps)
  also have "\<dots> \<longleftrightarrow> (\<exists>t. f \<in> set files \<and> dump_timestamp f = Some t \<and> k \<le> card (newer_dumps files t))"
    by (simp add: mem set_parsed_dumps)
  also have "\<dots> \<longleftrightarrow> f \<in> set files \<and> \<not> kept_by_policy k files f"
    by (auto simp: kept_by_policy_def split: option.splits)
  finally show ?thesis .
qed

lemma distinct_toDelete:
  assumes "distinct (map snd (parsed_dumps files))"
  shows "distinct (toDelete (Fin (of_nat k)) files)"
proof -
  have "distinct (map fst (dumpFiles files))"
    using distinct_fst_parsed [OF assms] by (simp add: distinct_map_dumpFiles)
  then have "distinct (map fst (drop k (dumpFiles files)))"
    by (simp flip: drop_map)
  then show ?thesis by (simp add: toDelete_def slice_from_nat del: slice_from.simps)
qed

lemma cleanup_result:
  assumes d: "distinct (map snd (parsed_dumps files))" and lk: "set lk \<inter> set files = {}"
  shows "cleanupOldDumps (Fin (of_nat k)) True lk files = (None, filter (kept_by_policy k files) files)"
proof -
  let ?vs = "toDelete (Fin (of_nat k)) files"
  have sub: "set ?vs \<subseteq> set files" using toDelete_iff [OF d] by blast
  then have "set ?vs \<inter> set lk = {}" using lk by blast
  then have "rm_loop ?vs lk files = (None, filter (\<lambda>f. f \<notin> set ?vs) files)"
    using distinct_toDelete [OF d] sub by (intro rm_loop_all)
  moreover have "filter (\<lambda>f. f \<notin> set ?vs) files = filter (kept_by_policy k files) files"
    by (rule filter_cong) (simp_all add: toDelete_iff [OF d])
  ultimately show ?thesis by (simp add: cleanupOldDumps_def)
qed

lemma kept_count:
  assumes d: "distinct (map snd (parsed_dumps files))"
  shows "length (filter (\<lambda>f. dump_timestamp f \<noteq> None) (filter (kept_by_policy k files) files))
           = min k (length (parsed_dumps files))"
proof -
  let ?ys = "dumpFiles files"
  let ?D = "map fst (parsed_dumps files)"
  have dD: "distinct ?D" by (rule distinct_fst_parsed [OF d])
  have dys: "distinct (map fst ?ys)" using dD by (simp add: distinct_map_dumpFiles)
  have split: "map fst ?ys = map fst (take k ?ys) @ toDelete (Fin (of_nat k)) files"
    by (simp add: toDelete_def slice_from_nat del: slice_from.simps flip: map_append)
  have "filter (\<lambda>f. dump_timestamp f \<noteq> None) (filter (kept_by_policy k files) files)
      = filter (kept_by_policy k files) ?D"
    by (simp add: fst_parsed_dumps conj_commute)
  also have "length \<dots> = card ({f. kept_by_policy k files f} \<inter> set ?D)"
    by (rule distinct_length_filter [OF dD])
  also have "{f. kept_by_policy k files f} \<inter> set ?D = set (map fst (take k ?ys))"
  proof -
    have "set ?D = set (map fst ?ys)" by (simp add: set_dumpFiles)
    moreover have "set (map fst (take k ?ys)) \<inter> set (toDelete (Fin (of_nat k)) files) = {}"
      using dys unfolding split by simp
    moreover have "set (map fst ?ys) = set (map fst (take k ?ys)) \<union> set (toDelete (Fin (of_nat k)) files)"
      unfolding split by simp
    moreover have "set ?D \<subseteq> set files" by (auto simp: fst_parsed_dumps)
    ultimately show ?thesis using toDelete_iff [OF d, of _ k] by blast
  qed
  also have "card (set (map fst (take k ?ys))) = length (map fst (take k ?ys))"
    using dys unfolding split by (intro distinct_card) simp
  finally show ?thesis by (simp add: length_dumpFiles min.commute)
qed

text \<open>
  C4. When the dumps of the store have pairwise different creation instants, each a safe
  integer, and every deletion succeeds, one pass with keep count \<open>k\<close> leaves exactly the files that the policy
  keeps: every file that is not a dump, and the \<open>k\<close> most recent dumps (all of them when
  there are at most \<open>k\<close>).
\<close>

theorem cleanupOldDumps_keeps_most_recent:
  assumes "distinct (map snd (parsed_dumps files))"
    and "\<forall>e\<in>set (parsed_dumps files). safe_integer (snd e)"
    and "set lk \<inter> set files = {}"
  shows "cleanupOldDumps (Fin (of_nat k)) True lk files = (None, filter (kept_by_policy k files) files)
       \<and> length (filter (\<lambda>f. dump_timestamp f \<noteq> None) (filter (kept_by_policy k files) files))
           = min k (length (parsed_dumps files))
       \<and> (length (parsed_dumps files) \<le> k \<longrightarrow> filter (kept_by_policy k files) files = files)"
proof -
  have "filter (kept_by_policy k files) files = files" if "length (parsed_dumps files) \<le> k"
  proof -
    have "kept_by_policy k files f" if "f \<in> set files" for f
    proof (cases "dump_timestamp f")
      case None
      then show ?thesis by (simp add: kept_by_policy_def)
    next
      case (Some t)
      have "card (newer_dumps files t) = card {y \<in> set (parsed_dumps files). t < snd y}"
        by (simp add: card_newer)
      also have "\<dots> \<le> card (set (parsed_dumps files) - {(f, t)})"
        by (rule card_mono) auto
      also have "\<dots> < card (set (parsed_dumps files))"
      proof (rule psubset_card_mono)
        show "finite (set (parsed_dumps files))" by (rule finite_set)
        have "(f, t) \<in> set (parsed_dumps files)"
          using Some that by (simp add: set_parsed_dumps)
        then show "set (parsed_dumps files) - {(f, t)} \<subset> set (parsed_dumps files)" by blast
      qed
      also have "\<dots> \<le> length (parsed_dumps files)" by (rule card_length)
      finally show ?thesis using Some \<open>length (parsed_dumps files) \<le> k\<close>
        by (simp add: kept_by_policy_def)
    qed
    then show ?thesis by simp
  qed
  then show ?thesis using cleanup_result [OF assms(1,3)] kept_count [OF assms(1)] by simp
qed

theorem cleanupOldDumps_keeps_most_recent_witness:
  "distinct (map snd (parsed_dumps [''dump-1.tar.gz'', ''a.txt'', ''dump-30.tar.gz'', ''dump-4.tar.gz'', ''dump-2.tar.gz'']))
   \<and> filter (kept_by_policy 2 [''dump-1.tar.gz'', ''a.txt'', ''dump-30.tar.gz'', ''dump-4.tar.gz'', ''dump-2.tar.gz''])
        [''dump-1.tar.gz'', ''a.txt'', ''dump-30.tar.gz'', ''dump-4.tar.gz'', ''dump-2.tar.gz'']
      = [''a.txt'', ''dump-30.tar.gz'', ''dump-4.tar.gz'']
   \<and> length (parsed_dumps [''dump-1.tar.gz'', ''a.txt'', ''dump-30.tar.gz'', ''dump-4.tar.gz'', ''dump-2.tar.gz'']) \<le> 4
   \<and> filter (kept_by_policy 4 [''dump-1.tar.gz'', ''a.txt'', ''dump-30.tar.gz'', ''dump-4.tar.gz'', ''dump-2.tar.gz''])
        [''dump-1.tar.gz'', ''a.txt'', ''dump-30.tar.gz'', ''dump-4.tar.gz'', ''dump-2.tar.gz'']
      = [''dump-1.tar.gz'', ''a.txt'', ''dump-30.tar.gz'', ''dump-4.tar.gz'', ''dump-2.tar.gz'']"
proof -
  let ?F = "[''dump-1.tar.gz'', ''a.txt'', ''dump-30.tar.gz'', ''dump-4.tar.gz'', ''dump-2.tar.gz'']"
  have d: "distinct (map snd (parsed_dumps ?F))" by code_simp
  have i: "\<forall>e\<in>set (parsed_dumps ?F). safe_integer (snd e)" by code_simp
  have e: "set [] \<inter> set ?F = {}" by simp
  have n: "length (parsed_dumps ?F) \<le> 4" by code_simp
  have r: "cleanupOldDumps (Fin (of_nat 2)) True [] ?F = (None, [''a.txt'', ''dump-30.tar.gz'', ''dump-4.tar.gz''])"
    by code_simp
  show ?thesis using cleanupOldDumps_keeps_most_recent [OF d i e, of 2] cleanupOldDumps_keeps_most_recent [OF d i e, of 4] d n r by simp
qed

section \<open>The coordinator\<close>

lemma single_flight_startRefresh: "single_flight s \<Longrightarrow> \<not> refreshing s \<Longrightarrow> single_flight (startRefresh s)"
  by (auto simp: single_flight_def startRefresh_def split: option.splits)

lemma single_flight_settle:
  "single_flight s \<Longrightarrow> map_of (jobs s) h = Some ph \<Longrightarrow> single_flight (settle h r s)"
  by (auto simp: single_flight_def settle_def split: option.splits if_splits)

lemma single_flight_tasks [simp]: "single_flight (s\<lparr>tasks := ts\<rparr>) = single_flight s"
  by (simp add: single_flight_def)

lemma single_flight_clock [simp]: "single_flight (s\<lparr>clock := t\<rparr>) = single_flight s"
  by (simp add: single_flight_def)

lemma single_flight_store [simp]: "single_flight (s\<lparr>store := d\<rparr>) = single_flight s"
  by (simp add: single_flight_def)

lemma single_flight_latestCache [simp]: "single_flight (s\<lparr>latestCache := c\<rparr>) = single_flight s"
  by (simp add: single_flight_def)

lemma single_flight_ensure:
  "single_flight s \<Longrightarrow> single_flight (snd (ensureFreshCache ttl k s))"
  by (simp add: ensureFreshCache_def single_flight_startRefresh)

lemma single_flight_trigger: "single_flight s \<Longrightarrow> single_flight (triggerRefresh ttl s)"
  by (simp add: triggerRefresh_def single_flight_startRefresh)

lemma single_flight_fetch: "single_flight s \<Longrightarrow> single_flight (snd (fetch cfg req s))"
  by (simp add: fetch_def Let_def single_flight_ensure single_flight_trigger)

lemma single_flight_spawn: "single_flight (snd r) \<Longrightarrow> single_flight (spawn r)"
  by (simp add: spawn_def)

lemma single_flight_put: "single_flight (snd r) \<Longrightarrow> single_flight (put i r)"
  by (simp add: put_def)

lemma single_flight_dump_after_exists:
  "single_flight s \<Longrightarrow> single_flight (snd (dump_after_exists cfg p s))"
  by (simp add: dump_after_exists_def split: option.splits)

lemma single_flight_resume: "single_flight s \<Longrightarrow> single_flight (resume cfg i s)"
  by (auto simp: resume_def single_flight_put single_flight_ensure single_flight_dump_after_exists
      split: task.splits option.splits)

lemma single_flight_publish:
  "single_flight s \<Longrightarrow>
     single_flight (s\<lparr>latestCache := c, store := d,
        jobs := map (\<lambda>j. if fst j = h then (h, Cleaning) else j) (jobs s)\<rparr>)"
  by (auto simp: single_flight_def comp_def split: option.splits)

lemma single_flight_step: "single_flight s \<Longrightarrow> single_flight (step cfg ev s)"
proof (cases ev)
  case (DumpExit h code err w)
  assume "single_flight s"
  then show ?thesis unfolding DumpExit
    by (auto simp: single_flight_settle single_flight_publish split: option.splits phase.splits sum.splits)
next
  case (CleanupDone h ok)
  assume "single_flight s"
  then show ?thesis unfolding CleanupDone
    by (auto simp: single_flight_settle split: option.splits phase.splits)
qed (simp_all add: single_flight_spawn single_flight_ensure single_flight_fetch single_flight_resume)

lemma single_flight_run: "single_flight s \<Longrightarrow> single_flight (run cfg evs s)"
  unfolding run_def by (induction evs arbitrary: s) (simp_all add: single_flight_step)

lemma single_flight_start: "single_flight (start cfg now files lk)"
  by (simp add: single_flight_def start_def)

text \<open>
  C10. In every state that the server reaches from its start by any sequence of events,
  \<open>refreshing\<close> is true exactly when \<open>refreshPromise\<close> is not \<open>null\<close>.
\<close>

theorem refreshing_iff_refreshPromise:
  "refreshing (run cfg evs (start cfg now files lk))
     \<longleftrightarrow> refreshPromise (run cfg evs (start cfg now files lk)) \<noteq> None"
  using single_flight_run [OF single_flight_start, of cfg evs cfg now files lk]
  by (auto simp: single_flight_def split: option.splits)

lemma run_Nil [simp]: "run cfg [] s = s"
  by (simp add: run_def)

lemma run_Cons [simp]: "run cfg (ev # evs) s = run cfg evs (step cfg ev s)"
  by (simp add: run_def)

lemma idle_no_jobs: "single_flight s \<Longrightarrow> \<not> refreshing s \<Longrightarrow> jobs s = []"
  by (auto simp: single_flight_def split: option.splits)

lemma awaits_simps [simp]:
  "awaits (InLoop ttl po k) h = (po = Some h)"
  "awaits (AtEnd h' k) h = (h' = h)"
  "awaits (Exists p) h = False"
  "awaits (Returned c) h = False"
  "awaits (Threw e) h = False"
  "awaits (Replied r) h = False"
  by (auto simp: awaits_def split: option.splits)

lemma dump_serve_trigger [simp]: "dump_serve (triggerRefresh ttl s) = dump_serve s"
  by (simp add: dump_serve_def triggerRefresh_def startRefresh_def)

lemma awaits_after_ensure [simp]: "\<not> awaits (after_ensure k s) h"
  by (simp add: after_ensure_def dump_serve_def split: kont.splits option.splits)

lemma awaits_after_throw [simp]: "\<not> awaits (after_throw k e) h"
  by (simp add: after_throw_def split: kont.splits)

lemma awaits_dump_serve [simp]: "\<not> awaits (dump_serve s) h"
  by (simp add: dump_serve_def split: option.splits)

lemma awaits_dump_after_exists [simp]: "\<not> awaits (fst (dump_after_exists cfg p s)) h"
  by (simp add: dump_after_exists_def split: option.splits)








lemma handles_known_latestCache [simp]: "handles_known (s\<lparr>latestCache := c\<rparr>) = handles_known s"
  by (simp add: handles_known_def)






lemma dump_after_exists_settle [simp]:
  "fst (dump_after_exists cfg p (settle h r s)) = fst (dump_after_exists cfg p s)"
  by (simp add: dump_after_exists_def settle_def file_exists_def split: option.splits)



lemma tasks_dump_after_exists [simp]: "tasks (snd (dump_after_exists cfg p s)) = tasks s"
  by (simp add: dump_after_exists_def split: option.splits)




section \<open>The handlers\<close>

lemma latestCache_ensure [simp]: "latestCache (snd (ensureFreshCache ttl k s)) = latestCache s"
  by (simp add: ensureFreshCache_def startRefresh_def)

lemma latestCache_trigger [simp]: "latestCache (triggerRefresh ttl s) = latestCache s"
  by (simp add: triggerRefresh_def startRefresh_def)

lemma latestCache_fetch [simp]: "latestCache (snd (fetch cfg req s)) = latestCache s"
  by (simp add: fetch_def Let_def)

lemma latestCache_settle [simp]: "latestCache (settle h r s) = latestCache s"
  by (simp add: settle_def)

lemma latestCache_spawn [simp]: "latestCache (spawn r) = latestCache (snd r)"
  by (simp add: spawn_def)

lemma latestCache_put [simp]: "latestCache (put i r) = latestCache (snd r)"
  by (simp add: put_def)






text \<open>
  C9. The handler never reads the \<open>Authorization\<close> header: its result is the same for
  every credential, and a request without any credential is served.
\<close>

theorem fetch_ignores_authorization:
  "fetch cfg (req\<lparr>authorization := a\<rparr>) s = fetch cfg req s
   \<and> fst (fetch cfg \<lparr>req_method = ''GET'', pathname = ''/status'', wait_param = None,
                     ttl_param = None, authorization = None\<rparr> s)
       = Replied (status_response cfg s)"
  by (simp add: fetch_def Let_def)

section \<open>Failures of a refresh\<close>

lemma rm_loop_abort:
  "distinct (pre @ f # post) \<Longrightarrow> set pre \<subseteq> set d \<Longrightarrow> set pre \<inter> set lk = {} \<Longrightarrow> f \<in> set lk \<Longrightarrow>
     rm_loop (pre @ f # post) lk d = (Some (RmFailed f), filter (\<lambda>x. x \<notin> set pre) d)"
proof (induction pre arbitrary: d)
  case Nil
  then show ?case by simp
next
  case (Cons a pre)
  have "rm_loop (pre @ f # post) lk (removeAll a d)
      = (Some (RmFailed f), filter (\<lambda>x. x \<notin> set pre) (removeAll a d))"
    using Cons.prems by (intro Cons.IH) auto
  moreover have "filter (\<lambda>x. x \<notin> set pre) (removeAll a d) = filter (\<lambda>x. x \<notin> set (a # pre)) d"
    by (induction d) auto
  ultimately show ?case using Cons.prems by simp
qed

lemma slice_from_drop: "\<exists>n. slice_from keep xs = drop n xs"
proof (cases keep)
  case PosInf
  then have "slice_from keep xs = drop (length xs) xs" by simp
  then show ?thesis ..
next
  case NegInf
  then have "slice_from keep xs = drop 0 xs" by simp
  then show ?thesis ..
next
  case NaN
  then have "slice_from keep xs = drop 0 xs" by simp
  then show ?thesis ..
qed auto

lemma set_toDelete_subset: "set (toDelete keep files) \<subseteq> set (map fst (parsed_dumps files))"
proof -
  obtain n where "slice_from keep (dumpFiles files) = drop n (dumpFiles files)"
    using slice_from_drop by blast
  then have "set (toDelete keep files) \<subseteq> fst ` set (dumpFiles files)"
    by (auto simp: toDelete_def dest: in_set_dropD)
  then show ?thesis by (simp add: set_dumpFiles)
qed

lemma toDelete_in_store: "set (toDelete keep files) \<subseteq> set files"
  using set_toDelete_subset [of keep files] by (auto simp: fst_parsed_dumps)

lemma distinct_toDelete_any:
  assumes "distinct files"
  shows "distinct (toDelete keep files)"
proof -
  have "distinct (map fst (parsed_dumps files))"
    using assms by (simp add: fst_parsed_dumps)
  then have d: "distinct (map fst (dumpFiles files))"
    by (simp add: distinct_map_dumpFiles)
  obtain n where "slice_from keep (dumpFiles files) = drop n (dumpFiles files)"
    using slice_from_drop by blast
  then have "toDelete keep files = drop n (map fst (dumpFiles files))"
    by (simp add: toDelete_def drop_map)
  then show ?thesis using d by simp
qed

lemma map_of_settle [simp]: "map_of (settled (settle h r s)) h = Some r"
  by (simp add: settle_def)

lemma resume_rejected:
  assumes "map_of (settled s) h = Some (Some e)" and "i < length (tasks s)"
    and "tasks s ! i = AtEnd h k \<or> tasks s ! i = InLoop ttl (Some h) k"
  shows "step cfg (Resume i) s = s\<lparr>tasks := (tasks s)[i := after_throw k e]\<rparr>"
  using assms by (auto simp: resume_def put_def)

lemma map_of_mark:
  "map_of js h = Some ph \<Longrightarrow>
     map_of (map (\<lambda>j. if fst j = h then (h, Cleaning) else j) js) h = Some Cleaning"
  by (induction js) (auto split: if_splits)

lemma latestCache_startRefresh [simp]: "latestCache (startRefresh s) = latestCache s"
  by (simp add: startRefresh_def)

text \<open>
  C5, as claimed, fails. Three old dumps and a keep count of 1: the pass is to delete
  \<open>dump-3\<close>, \<open>dump-2\<close> and \<open>dump-1\<close> in this order. \<open>rm\<close> rejects for \<open>dump-2\<close>; then
  \<open>dump-1\<close> is never deleted, and the caller of the refresh gets the error of \<open>rm\<close>.
\<close>

theorem rm_failure_counterexample:
  "tasks (run cfg_keep1 [Call (Fin 0), DumpExit 0 0 [] True, CleanupDone 0 True, Resume 0]
            (start cfg_keep1 5000 [''dump-1.tar.gz'', ''dump-2.tar.gz'', ''dump-3.tar.gz'']
               [''dump-2.tar.gz'']))
     = [Threw (RmFailed ''dump-2.tar.gz'')]
   \<and> store (run cfg_keep1 [Call (Fin 0), DumpExit 0 0 [] True, CleanupDone 0 True, Resume 0]
            (start cfg_keep1 5000 [''dump-1.tar.gz'', ''dump-2.tar.gz'', ''dump-3.tar.gz'']
               [''dump-2.tar.gz'']))
     = [''dump-1.tar.gz'', ''dump-2.tar.gz'', ''dump-5000.tar.gz'']"
  by code_simp

text \<open>
  C5, amended. A failure to delete a stale file ends the pass at once: the files before it
  in deletion order are gone, it and the files after it stay. The error leaves
  \<open>cleanupOldDumps\<close> and \<open>doRefresh\<close>: the promise of the refresh is rejected with it and
  every task that awaits the promise gets it, while the entry published before the pass
  stays in \<open>latestCache\<close>.
\<close>

theorem rm_failure_aborts_and_rejects:
  assumes "map_of (jobs s) h = Some Cleaning"
    and "distinct (store s)"
    and "toDelete (KEEP_COUNT cfg) (store s) = pre @ f # post"
    and "set pre \<inter> set (locked s) = {}" and "f \<in> set (locked s)"
  shows "cleanupOldDumps (KEEP_COUNT cfg) True (locked s) (store s)
           = (Some (RmFailed f), filter (\<lambda>x. x \<notin> set pre) (store s))
       \<and> store (step cfg (CleanupDone h True) s) = filter (\<lambda>x. x \<notin> set pre) (store s)
       \<and> set (f # post) \<subseteq> set (store (step cfg (CleanupDone h True) s))
       \<and> map_of (settled (step cfg (CleanupDone h True) s)) h = Some (Some (RmFailed f))
       \<and> latestCache (step cfg (CleanupDone h True) s) = latestCache s
       \<and> (\<forall>i ttl k. i < length (tasks s) \<and> (tasks s ! i = AtEnd h k \<or> tasks s ! i = InLoop ttl (Some h) k) \<longrightarrow>
            tasks (step cfg (Resume i) (step cfg (CleanupDone h True) s)) ! i = after_throw k (RmFailed f))"
proof -
  let ?vs = "toDelete (KEEP_COUNT cfg) (store s)"
  let ?s' = "step cfg (CleanupDone h True) s"
  have dv: "distinct (pre @ f # post)"
    using distinct_toDelete_any [OF assms(2), of "KEEP_COUNT cfg"] assms(3) by simp
  have sub: "set (pre @ f # post) \<subseteq> set (store s)"
    using toDelete_in_store [of "KEEP_COUNT cfg" "store s"] assms(3) by simp
  have c: "cleanupOldDumps (KEEP_COUNT cfg) True (locked s) (store s)
      = (Some (RmFailed f), filter (\<lambda>x. x \<notin> set pre) (store s))"
    using rm_loop_abort [OF dv _ assms(4,5), of "store s"] sub assms(3)
    by (simp add: cleanupOldDumps_def)
  have s': "?s' = settle h (Some (RmFailed f)) (s\<lparr>store := filter (\<lambda>x. x \<notin> set pre) (store s)\<rparr>)"
    using assms(1) c by simp
  have st: "store ?s' = filter (\<lambda>x. x \<notin> set pre) (store s)"
    and lc: "latestCache ?s' = latestCache s" and ts: "tasks ?s' = tasks s"
    unfolding s' by (simp_all add: settle_def)
  have m: "map_of (settled ?s') h = Some (Some (RmFailed f))"
    unfolding s' by simp
  have rest: "set (f # post) \<subseteq> set (store ?s')"
    unfolding st using dv sub by auto
  have del: "tasks (step cfg (Resume i) ?s') ! i = after_throw k (RmFailed f)"
    if "i < length (tasks s)" and "tasks s ! i = AtEnd h k \<or> tasks s ! i = InLoop ttl (Some h) k"
    for i ttl k
    using resume_rejected [OF m, of i k ttl cfg] that ts by simp
  show ?thesis using c st rest m lc del by blast
qed

theorem rm_failure_aborts_and_rejects_witness:
  "map_of (jobs (run cfg_keep1 [Call (Fin 0), DumpExit 0 0 [] True]
            (start cfg_keep1 5000 [''dump-1.tar.gz'', ''dump-2.tar.gz'', ''dump-3.tar.gz'']
               [''dump-2.tar.gz'']))) 0 = Some Cleaning
   \<and> toDelete (KEEP_COUNT cfg_keep1) (store (run cfg_keep1 [Call (Fin 0), DumpExit 0 0 [] True]
            (start cfg_keep1 5000 [''dump-1.tar.gz'', ''dump-2.tar.gz'', ''dump-3.tar.gz'']
               [''dump-2.tar.gz''])))
       = [''dump-3.tar.gz''] @ ''dump-2.tar.gz'' # [''dump-1.tar.gz'']
   \<and> store (step cfg_keep1 (CleanupDone 0 True) (run cfg_keep1 [Call (Fin 0), DumpExit 0 0 [] True]
            (start cfg_keep1 5000 [''dump-1.tar.gz'', ''dump-2.tar.gz'', ''dump-3.tar.gz'']
               [''dump-2.tar.gz''])))
       = [''dump-1.tar.gz'', ''dump-2.tar.gz'', ''dump-5000.tar.gz'']
   \<and> tasks (step cfg_keep1 (Resume 0) (step cfg_keep1 (CleanupDone 0 True)
          (run cfg_keep1 [Call (Fin 0), DumpExit 0 0 [] True]
            (start cfg_keep1 5000 [''dump-1.tar.gz'', ''dump-2.tar.gz'', ''dump-3.tar.gz'']
               [''dump-2.tar.gz''])))) ! 0
       = Threw (RmFailed ''dump-2.tar.gz'')"
proof -
  define s where "s = run cfg_keep1 [Call (Fin 0), DumpExit 0 0 [] True]
            (start cfg_keep1 5000 [''dump-1.tar.gz'', ''dump-2.tar.gz'', ''dump-3.tar.gz'']
               [''dump-2.tar.gz''])"
  have s: "s = \<lparr>latestCache = Some \<lparr>path = ''cache/dump-5000.tar.gz'', timestamp = 5000\<rparr>,
      refreshing = True, refreshPromise = Some 0, clock = 5000,
      store = [''dump-1.tar.gz'', ''dump-2.tar.gz'', ''dump-3.tar.gz'', ''dump-5000.tar.gz''],
      locked = [''dump-2.tar.gz''], jobs = [(0, Cleaning)], settled = [],
      tasks = [AtEnd 0 Direct], generations = 1, exited = False\<rparr>"
    unfolding s_def by code_simp
  have h1: "map_of (jobs s) 0 = Some Cleaning" and h2: "distinct (store s)"
    and h4: "set [''dump-3.tar.gz''] \<inter> set (locked s) = {}"
    and h5: "''dump-2.tar.gz'' \<in> set (locked s)"
    and t: "0 < length (tasks s) \<and> tasks s ! 0 = AtEnd 0 Direct"
    unfolding s by simp_all
  have h3: "toDelete (KEEP_COUNT cfg_keep1) (store s)
      = [''dump-3.tar.gz''] @ ''dump-2.tar.gz'' # [''dump-1.tar.gz'']"
    unfolding s by code_simp
  have f: "filter (\<lambda>x. x \<notin> set [''dump-3.tar.gz'']) (store s)
      = [''dump-1.tar.gz'', ''dump-2.tar.gz'', ''dump-5000.tar.gz'']"
    unfolding s by simp
  have "store (step cfg_keep1 (CleanupDone 0 True) s) = [''dump-1.tar.gz'', ''dump-2.tar.gz'', ''dump-5000.tar.gz'']
      \<and> tasks (step cfg_keep1 (Resume 0) (step cfg_keep1 (CleanupDone 0 True) s)) ! 0
          = after_throw Direct (RmFailed ''dump-2.tar.gz'')"
    using rm_failure_aborts_and_rejects [OF h1 h2 h3 h4 h5] t f
    by (auto simp del: step.simps)
  moreover have "after_throw Direct (RmFailed ''dump-2.tar.gz'') = Threw (RmFailed ''dump-2.tar.gz'')"
    by (simp add: after_throw_def)
  ultimately show ?thesis unfolding s_def [symmetric] using h1 h3 by (simp only:)
qed

text \<open>
  C2, as claimed, fails. The store holds one dump that cannot be deleted; a refresh writes
  a new dump and publishes it, then the retention pass fails. The promise is rejected, but
  \<open>latestCache\<close> is the new entry and not the entry from before the attempt.
\<close>

theorem failed_refresh_counterexample:
  "latestCache (start cfg_keep1 5000 [''dump-1.tar.gz''] [''dump-1.tar.gz''])
     = Some \<lparr>path = ''cache/dump-1.tar.gz'', timestamp = 1\<rparr>
   \<and> map_of (settled (run cfg_keep1 [Call (Fin 0), DumpExit 0 0 [] True, CleanupDone 0 True]
        (start cfg_keep1 5000 [''dump-1.tar.gz''] [''dump-1.tar.gz'']))) 0
     = Some (Some (RmFailed ''dump-1.tar.gz''))
   \<and> latestCache (run cfg_keep1 [Call (Fin 0), DumpExit 0 0 [] True, CleanupDone 0 True]
        (start cfg_keep1 5000 [''dump-1.tar.gz''] [''dump-1.tar.gz'']))
     = Some \<lparr>path = ''cache/dump-5000.tar.gz'', timestamp = 5000\<rparr>"
  by code_simp

text \<open>
  C2, amended. The error of a failed refresh is delivered to every task that awaits its
  promise (a direct caller of \<open>ensureFreshCache\<close> throws it). When \<open>performDump\<close> fails,
  the attempt leaves \<open>latestCache\<close> as it was: neither the start of the refresh nor its
  failure assigns it. When the retention pass fails, the entry that this attempt has
  generated is already published and stays.
\<close>

theorem failed_refresh_delivers_error:
  assumes "map_of (jobs s) h = Some (Dumping ts)"
  shows "(performDump_result cfg ts exitCode stderr write_ok = Inl e \<longrightarrow>
            latestCache (step cfg (DumpExit h exitCode stderr write_ok) s) = latestCache s
          \<and> map_of (settled (step cfg (DumpExit h exitCode stderr write_ok) s)) h = Some (Some e))
       \<and> (performDump_result cfg ts exitCode stderr write_ok = Inr entry
          \<and> fst (cleanupOldDumps (KEEP_COUNT cfg) readdir_ok (locked s)
                   (write_file (dump_filename ts) (store s))) = Some e \<longrightarrow>
            latestCache (step cfg (CleanupDone h readdir_ok)
                          (step cfg (DumpExit h exitCode stderr write_ok) s)) = Some entry
          \<and> map_of (settled (step cfg (CleanupDone h readdir_ok)
                          (step cfg (DumpExit h exitCode stderr write_ok) s))) h = Some (Some e))
       \<and> (\<forall>s' i ttl k. map_of (settled s') h = Some (Some e) \<and> i < length (tasks s')
             \<and> (tasks s' ! i = AtEnd h k \<or> tasks s' ! i = InLoop ttl (Some h) k) \<longrightarrow>
            tasks (step cfg (Resume i) s') ! i = after_throw k e
          \<and> latestCache (step cfg (Resume i) s') = latestCache s')
       \<and> after_throw Direct e = Threw e
       \<and> latestCache (startRefresh s) = latestCache s"
proof -
  define d where "d = step cfg (DumpExit h exitCode stderr write_ok) s"
  have a: "latestCache d = latestCache s \<and> map_of (settled d) h = Some (Some e)"
    if "performDump_result cfg ts exitCode stderr write_ok = Inl e"
    unfolding d_def using assms that by simp
  have b: "latestCache (step cfg (CleanupDone h readdir_ok) d) = Some entry
      \<and> map_of (settled (step cfg (CleanupDone h readdir_ok) d)) h = Some (Some e)"
    if r: "performDump_result cfg ts exitCode stderr write_ok = Inr entry"
      and c: "fst (cleanupOldDumps (KEEP_COUNT cfg) readdir_ok (locked s)
                (write_file (dump_filename ts) (store s))) = Some e"
  proof -
    have d: "d = s\<lparr>latestCache := Some entry,
        store := write_file (dump_filename ts) (store s),
        jobs := map (\<lambda>j. if fst j = h then (h, Cleaning) else j) (jobs s)\<rparr>"
      unfolding d_def using assms r by simp
    have j: "map_of (jobs d) h = Some Cleaning"
      unfolding d using map_of_mark [OF assms] by simp
    have l: "locked d = locked s" and st: "store d = write_file (dump_filename ts) (store s)"
      and lc: "latestCache d = Some entry"
      unfolding d by simp_all
    have "step cfg (CleanupDone h readdir_ok) d
        = settle h (Some e)
            (d\<lparr>store := snd (cleanupOldDumps (KEEP_COUNT cfg) readdir_ok (locked d) (store d))\<rparr>)"
      using j c by (simp add: l st)
    then show ?thesis using lc by simp
  qed
  have c: "tasks (step cfg (Resume i) s') ! i = after_throw k e
      \<and> latestCache (step cfg (Resume i) s') = latestCache s'"
    if "map_of (settled s') h = Some (Some e)" and "i < length (tasks s')"
      and "tasks s' ! i = AtEnd h k \<or> tasks s' ! i = InLoop ttl (Some h) k"
    for s' i ttl k
    using resume_rejected [OF that, of cfg] that(2) by simp
  have t: "after_throw Direct e = Threw e" by (simp add: after_throw_def)
  have u: "latestCache (startRefresh s) = latestCache s" by simp
  show ?thesis unfolding d_def [symmetric] using a b c t u by blast
qed

theorem failed_refresh_delivers_error_witness:
  "map_of (jobs (run cfg_keep1 [Call (Fin 0)] (start cfg_keep1 5000 [] []))) 0 = Some (Dumping 5000)
   \<and> performDump_result cfg_keep1 5000 1 ''boom'' True = Inl (PgDumpFailed 1 ''boom'')
   \<and> latestCache (step cfg_keep1 (DumpExit 0 1 ''boom'' True)
        (run cfg_keep1 [Call (Fin 0)] (start cfg_keep1 5000 [] [])))
       = latestCache (run cfg_keep1 [Call (Fin 0)] (start cfg_keep1 5000 [] []))
   \<and> tasks (step cfg_keep1 (Resume 0) (step cfg_keep1 (DumpExit 0 1 ''boom'' True)
        (run cfg_keep1 [Call (Fin 0)] (start cfg_keep1 5000 [] [])))) ! 0
       = Threw (PgDumpFailed 1 ''boom'')"
proof -
  define s where "s = run cfg_keep1 [Call (Fin 0)] (start cfg_keep1 5000 [] [])"
  define s' where "s' = step cfg_keep1 (DumpExit 0 1 ''boom'' True) s"
  have s: "s = \<lparr>latestCache = None, refreshing = True, refreshPromise = Some 0,
      clock = 5000, store = [], locked = [], jobs = [(0, Dumping 5000)],
      settled = [], tasks = [AtEnd 0 Direct], generations = 1, exited = False\<rparr>"
    unfolding s_def by code_simp
  have h: "map_of (jobs s) 0 = Some (Dumping 5000)" unfolding s by simp
  have r: "performDump_result cfg_keep1 5000 1 ''boom'' True = Inl (PgDumpFailed 1 ''boom'')"
    by (simp add: performDump_result_def)
  have t: "0 < length (tasks s') \<and> tasks s' ! 0 = AtEnd 0 Direct"
    unfolding s'_def s by (simp add: r settle_def)
  have a: "latestCache s' = latestCache s
      \<and> map_of (settled s') 0 = Some (Some (PgDumpFailed 1 ''boom''))"
    unfolding s'_def
    using failed_refresh_delivers_error [OF h, of cfg_keep1 1 "''boom''" True "PgDumpFailed 1 ''boom''"] r
    by blast
  then have "tasks (step cfg_keep1 (Resume 0) s') ! 0 = Threw (PgDumpFailed 1 ''boom'')"
    using failed_refresh_delivers_error [OF h, of cfg_keep1 1 "''boom''" True "PgDumpFailed 1 ''boom''"] t
    by (auto simp del: step.simps)
  then show ?thesis unfolding s_def [symmetric] s'_def [symmetric] using h r a by (simp only:)
qed

section \<open>Publication and retention\<close>

lemma number_of_digits_snoc:
  "number_of_digits (ds @ [c]) = 10 * number_of_digits ds + digit_val c"
  by (simp add: number_of_digits_def)

lemma digit_char:
  assumes "0 \<le> d" and "d < 10"
  shows "is_digit (char_of (48 + d)) \<and> digit_val (char_of (48 + d)) = d"
proof -
  have "(48 + d) mod 256 = 48 + d" using assms by simp
  then have "(of_char (char_of (48 + d)) :: int) = 48 + d" by simp
  then show ?thesis using assms by (simp add: is_digit_def digit_val_def)
qed

lemma decimal_digits:
  "0 \<le> n \<Longrightarrow> decimal n \<noteq> [] \<and> list_all is_digit (decimal n) \<and> number_of_digits (decimal n) = n"
proof (induction n rule: decimal.induct)
  case (1 n)
  show ?case
  proof (cases "n < 10")
    case True
    then have "decimal n = [char_of (48 + n)]" using "1.prems" by (simp add: decimal.simps)
    then show ?thesis using digit_char [of n] True "1.prems" by (simp add: number_of_digits_def)
  next
    case False
    then have d: "decimal n = decimal (n div 10) @ [char_of (48 + n mod 10)]"
      using "1.prems" by (subst decimal.simps) simp
    have "0 \<le> n div 10" using "1.prems" by simp
    then have IH: "decimal (n div 10) \<noteq> [] \<and> list_all is_digit (decimal (n div 10))
        \<and> number_of_digits (decimal (n div 10)) = n div 10"
      using "1.IH"(2) False "1.prems" by simp
    have "is_digit (char_of (48 + n mod 10)) \<and> digit_val (char_of (48 + n mod 10)) = n mod 10"
      by (rule digit_char) simp_all
    then show ?thesis using IH unfolding d by (simp add: number_of_digits_snoc)
  qed
qed

lemma match_dump_name:
  assumes "ds \<noteq> []" and "list_all is_digit ds"
  shows "match_dump (''dump-'' @ ds @ ''.tar.gz'') = Some ds"
  using assms by (simp add: match_dump_def endsWith_def)

lemma dump_timestamp_filename: "0 \<le> t \<Longrightarrow> dump_timestamp (dump_filename t) = Some t"
  using decimal_digits [of t] match_dump_name [of "decimal t"]
  by (simp add: dump_timestamp_def dump_filename_def)

lemma newest_not_dropped:
  assumes "sorted (map (\<lambda>e. - snd e) (ys :: ('a \<times> int) list))" and "distinct ys"
    and "x \<in> set ys" and "\<forall>y\<in>set ys. y \<noteq> x \<longrightarrow> snd y < snd x" and "0 < n"
  shows "x \<notin> set (drop n ys)"
proof (cases ys)
  case Nil
  then show ?thesis by simp
next
  case (Cons a as)
  have "a = x"
  proof (rule ccontr)
    assume ne: "a \<noteq> x"
    then have "x \<in> set as" using assms(3) Cons by simp
    then have "snd x \<le> snd a" using assms(1) Cons by auto
    moreover have "snd a < snd x" using assms(4) ne Cons by simp
    ultimately show False by simp
  qed
  then have "x \<notin> set as" using assms(2) Cons by simp
  moreover obtain m where "n = Suc m" using assms(5) by (cases n) auto
  ultimately show ?thesis using Cons by (auto dest: in_set_dropD)
qed

lemma rm_loop_keeps: "g \<in> set d \<Longrightarrow> g \<notin> set vs \<Longrightarrow> g \<in> set (snd (rm_loop vs lk d))"
  by (induction vs arbitrary: d) auto

lemma cleanup_keeps:
  "g \<in> set d \<Longrightarrow> g \<notin> set (toDelete keep d) \<Longrightarrow> g \<in> set (snd (cleanupOldDumps keep ok lk d))"
  by (simp add: cleanupOldDumps_def rm_loop_keeps)

lemma newest_not_deleted:
  assumes "distinct d" and "dump_timestamp f = Some t"
    and "\<forall>g\<in>set d. \<forall>u. g \<noteq> f \<and> dump_timestamp g = Some u \<longrightarrow> u < t"
    and "1 \<le> r"
  shows "f \<notin> set (toDelete (Fin r) d)"
proof
  assume "f \<in> set (toDelete (Fin r) d)"
  have pos: "0 < nat (trunc r)" using assms(4) by (simp add: trunc_def)
  then have sl: "slice_from (Fin r) (dumpFiles d) = drop (nat (trunc r)) (dumpFiles d)"
    by simp
  from \<open>f \<in> set (toDelete (Fin r) d)\<close> obtain u
    where u: "(f, u) \<in> set (drop (nat (trunc r)) (dumpFiles d))"
    unfolding toDelete_def sl by auto
  then have "(f, u) \<in> set (parsed_dumps d)"
    by (metis in_set_dropD set_dumpFiles)
  then have "u = t" and fd: "(f, t) \<in> set (parsed_dumps d)"
    using assms(2) by (auto simp: set_parsed_dumps)
  have "distinct (map fst (parsed_dumps d))" using assms(1) by (simp add: fst_parsed_dumps)
  then have "distinct (map fst (dumpFiles d))" by (simp add: distinct_map_dumpFiles)
  then have dist: "distinct (dumpFiles d)" by (simp add: distinct_map)
  have "(f, t) \<notin> set (drop (nat (trunc r)) (dumpFiles d))"
  proof (rule newest_not_dropped [OF _ dist _ _ pos])
    show "sorted (map (\<lambda>e. - snd e) (dumpFiles d))" by (simp add: dumpFiles_def)
    show "(f, t) \<in> set (dumpFiles d)" using fd by (simp add: set_dumpFiles)
    show "\<forall>y\<in>set (dumpFiles d). y \<noteq> (f, t) \<longrightarrow> snd y < snd (f, t)"
    proof (intro ballI impI)
      fix y assume y: "y \<in> set (dumpFiles d)" and ne: "y \<noteq> (f, t)"
      obtain g u where gu: "y = (g, u)" by (cases y)
      then have m: "g \<in> set d" "dump_timestamp g = Some u"
        using y by (simp_all add: set_dumpFiles set_parsed_dumps)
      have "g \<noteq> f" using ne gu m(2) assms(2) by auto
      then show "snd y < snd (f, t)" using assms(3) m gu by auto
    qed
  qed
  then show False using u \<open>u = t\<close> by simp
qed

text \<open>
  C3, as claimed, fails. The store holds two dumps named with instants later than the
  clock. The newer one, the current entry, is deleted by hand; a \<open>/dump\<close> request finds it
  missing and clears \<open>latestCache\<close>; a second request waits for a refresh. The refresh
  writes and publishes \<open>dump-5000\<close>; the retention pass, keeping one file, keeps
  \<open>dump-7000\<close> and deletes \<open>dump-5000\<close>, the file that \<open>latestCache\<close> points to.
\<close>

theorem published_before_retention_counterexample:
  "latestCache (run cfg_keep1
       [Unlink ''dump-9000.tar.gz'', Request get_dump, Resume 0, Request get_dump_wait,
        DumpExit 0 0 [] True, CleanupDone 0 True]
       (start cfg_keep1 5000 [''dump-7000.tar.gz'', ''dump-9000.tar.gz''] []))
     = Some \<lparr>path = ''cache/dump-5000.tar.gz'', timestamp = 5000\<rparr>
   \<and> store (run cfg_keep1
       [Unlink ''dump-9000.tar.gz'', Request get_dump, Resume 0, Request get_dump_wait,
        DumpExit 0 0 [] True, CleanupDone 0 True]
       (start cfg_keep1 5000 [''dump-7000.tar.gz'', ''dump-9000.tar.gz''] []))
     = [''dump-7000.tar.gz'']
   \<and> \<not> file_exists cfg_keep1 (run cfg_keep1
       [Unlink ''dump-9000.tar.gz'', Request get_dump, Resume 0, Request get_dump_wait,
        DumpExit 0 0 [] True, CleanupDone 0 True]
       (start cfg_keep1 5000 [''dump-7000.tar.gz'', ''dump-9000.tar.gz''] []))
       ''cache/dump-5000.tar.gz''"
  by code_simp

text \<open>
  C3, amended. When \<open>performDump\<close> succeeds the new entry is assigned to \<open>latestCache\<close>
  while the store still holds every old file; the retention pass runs after that. The pass
  does not look at \<open>latestCache\<close>. With a keep count of at least 1 it keeps the file of the
  just-published entry whenever that entry is the newest-named dump: whenever every dump
  already in the store carries an earlier instant in its name.
\<close>

theorem published_before_retention:
  assumes "map_of (jobs s) h = Some (Dumping ts)" and "0 \<le> ts"
    and "KEEP_COUNT cfg = Fin r" and "1 \<le> r"
    and "distinct (store s)"
    and "\<forall>g\<in>set (store s). \<forall>u. dump_timestamp g = Some u \<longrightarrow> u < ts"
  shows "latestCache (step cfg (DumpExit h 0 stderr True) s)
           = Some \<lparr>path = join_path (CACHE_DIR cfg) (dump_filename ts), timestamp = ts\<rparr>
       \<and> map_of (jobs (step cfg (DumpExit h 0 stderr True) s)) h = Some Cleaning
       \<and> store (step cfg (DumpExit h 0 stderr True) s) = store s @ [dump_filename ts]
       \<and> latestCache (step cfg (CleanupDone h readdir_ok) (step cfg (DumpExit h 0 stderr True) s))
           = Some \<lparr>path = join_path (CACHE_DIR cfg) (dump_filename ts), timestamp = ts\<rparr>
       \<and> file_exists cfg (step cfg (CleanupDone h readdir_ok) (step cfg (DumpExit h 0 stderr True) s))
           (join_path (CACHE_DIR cfg) (dump_filename ts))"
proof -
  define f where "f = dump_filename ts"
  define entry where "entry = \<lparr>path = join_path (CACHE_DIR cfg) f, timestamp = ts\<rparr>"
  define p where "p = step cfg (DumpExit h 0 stderr True) s"
  define q where "q = step cfg (CleanupDone h readdir_ok) p"
  have tf: "dump_timestamp f = Some ts"
    unfolding f_def using assms(2) by (rule dump_timestamp_filename)
  have "f \<notin> set (store s)" using assms(6) tf by auto
  then have w: "write_file f (store s) = store s @ [f]" by (simp add: write_file_def)
  have r: "performDump_result cfg ts 0 stderr True = Inr entry"
    by (simp add: performDump_result_def entry_def f_def)
  have p: "p = s\<lparr>latestCache := Some entry, store := store s @ [f],
      jobs := map (\<lambda>j. if fst j = h then (h, Cleaning) else j) (jobs s)\<rparr>"
    unfolding p_def using assms(1) r w by (simp add: f_def)
  have p1: "latestCache p = Some entry" and p3: "store p = store s @ [f]"
    and p4: "locked p = locked s"
    unfolding p by simp_all
  have p2: "map_of (jobs p) h = Some Cleaning"
    unfolding p using map_of_mark [OF assms(1)] by simp
  define c where "c = cleanupOldDumps (KEEP_COUNT cfg) readdir_ok (locked p) (store p)"
  have q: "q = settle h (fst c) (p\<lparr>store := snd c\<rparr>)"
    unfolding q_def c_def using p2 by simp
  have q1: "latestCache q = Some entry" unfolding q using p1 by (simp add: settle_def)
  have dp: "distinct (store p)" unfolding p3 using assms(5) \<open>f \<notin> set (store s)\<close> by simp
  have "f \<notin> set (toDelete (Fin r) (store p))"
  proof (rule newest_not_deleted [OF dp tf _ assms(4)])
    show "\<forall>g\<in>set (store p). \<forall>u. g \<noteq> f \<and> dump_timestamp g = Some u \<longrightarrow> u < ts"
      unfolding p3 using assms(6) by auto
  qed
  then have "f \<in> set (snd c)"
    unfolding c_def assms(3) by (intro cleanup_keeps) (simp_all add: p3)
  then have "f \<in> set (store q)" unfolding q by (simp add: settle_def)
  then have q2: "file_exists cfg q (join_path (CACHE_DIR cfg) f)"
    by (simp add: file_exists_def)
  show ?thesis
    using p1 p2 p3 q1 q2 unfolding q_def p_def entry_def f_def by blast
qed

theorem published_before_retention_witness:
  "map_of (jobs (run cfg_keep1 [Call (Fin 0)] (start cfg_keep1 5000 [''dump-1.tar.gz''] []))) 0
     = Some (Dumping 5000)
   \<and> KEEP_COUNT cfg_keep1 = Fin 1
   \<and> store (run cfg_keep1 [Call (Fin 0)] (start cfg_keep1 5000 [''dump-1.tar.gz''] []))
     = [''dump-1.tar.gz'']
   \<and> dump_timestamp ''dump-1.tar.gz'' = Some 1
   \<and> latestCache (step cfg_keep1 (CleanupDone 0 True) (step cfg_keep1 (DumpExit 0 0 [] True)
        (run cfg_keep1 [Call (Fin 0)] (start cfg_keep1 5000 [''dump-1.tar.gz''] []))))
     = Some \<lparr>path = join_path (CACHE_DIR cfg_keep1) (dump_filename 5000), timestamp = 5000\<rparr>
   \<and> file_exists cfg_keep1 (step cfg_keep1 (CleanupDone 0 True) (step cfg_keep1 (DumpExit 0 0 [] True)
        (run cfg_keep1 [Call (Fin 0)] (start cfg_keep1 5000 [''dump-1.tar.gz''] []))))
        (join_path (CACHE_DIR cfg_keep1) (dump_filename 5000))"
proof -
  define s where "s = run cfg_keep1 [Call (Fin 0)] (start cfg_keep1 5000 [''dump-1.tar.gz''] [])"
  have s: "s = \<lparr>latestCache = Some \<lparr>path = ''cache/dump-1.tar.gz'', timestamp = 1\<rparr>,
      refreshing = True, refreshPromise = Some 0, clock = 5000, store = [''dump-1.tar.gz''],
      locked = [], jobs = [(0, Dumping 5000)], settled = [], tasks = [AtEnd 0 Direct],
      generations = 1, exited = False\<rparr>"
    unfolding s_def by code_simp
  have t1: "dump_timestamp ''dump-1.tar.gz'' = Some 1" by code_simp
  have h1: "map_of (jobs s) 0 = Some (Dumping 5000)" and h5: "distinct (store s)"
    and st: "store s = [''dump-1.tar.gz'']"
    unfolding s by simp_all
  have h2: "(0::int) \<le> 5000" and h4: "(1::rat) \<le> 1" by simp_all
  have h3: "KEEP_COUNT cfg_keep1 = Fin 1" by (simp add: cfg_keep1_def)
  have h6: "\<forall>g\<in>set (store s). \<forall>u. dump_timestamp g = Some u \<longrightarrow> u < 5000"
    unfolding st using t1 by simp
  show ?thesis
    unfolding s_def [symmetric]
    using published_before_retention [OF h1 h2 h3 h4 h5 h6, of "[]" True] h1 h3 st t1
    by (simp only:)
qed

section \<open>Concurrent callers of \<open>ensureFreshCache\<close>\<close>

lemma call_starts:
  "\<not> refreshing s \<Longrightarrow> needsRefresh ttl s \<Longrightarrow>
     step cfg (Call ttl) s = (startRefresh s)\<lparr>tasks := tasks s @ [AtEnd (generations s) Direct]\<rparr>"
  by (simp add: ensureFreshCache_def spawn_def startRefresh_def)

lemma calls_join:
  "refreshing s \<Longrightarrow>
     run cfg (map Call ttls) s
       = s\<lparr>tasks := tasks s @ map (\<lambda>t. InLoop t (refreshPromise s) Direct) ttls\<rparr>"
proof (induction ttls arbitrary: s)
  case Nil
  then show ?case by simp
next
  case (Cons t ttls)
  have "step cfg (Call t) s = s\<lparr>tasks := tasks s @ [InLoop t (refreshPromise s) Direct]\<rparr>"
    using Cons.prems by (simp add: ensureFreshCache_def spawn_def)
  then show ?case using Cons.IH [of "s\<lparr>tasks := tasks s @ [InLoop t (refreshPromise s) Direct]\<rparr>"] Cons.prems
    by simp
qed

lemma mark_nth:
  "ts ! i = x \<Longrightarrow> i < length ts \<Longrightarrow> foldl (\<lambda>ts j. ts[j := x]) ts js ! i = x"
proof (induction js arbitrary: ts)
  case Nil
  then show ?case by simp
next
  case (Cons a js)
  have "(ts[a := x]) ! i = x"
  proof (cases "a = i")
    case True
    then show ?thesis using Cons.prems(2) by simp
  next
    case False
    then show ?thesis using Cons.prems(1) by simp
  qed
  then show ?case using Cons.IH [of "ts[a := x]"] Cons.prems by simp
qed

lemma mark_length [simp]: "length (foldl (\<lambda>ts j. ts[j := x]) ts js) = length ts"
  by (induction js arbitrary: ts) simp_all

lemma mark_member:
  "i \<in> set js \<Longrightarrow> i < length ts \<Longrightarrow> foldl (\<lambda>ts j. ts[j := x]) ts js ! i = x"
proof (induction js arbitrary: ts)
  case Nil
  then show ?case by simp
next
  case (Cons j js)
  show ?case
  proof (cases "i = j")
    case True
    then show ?thesis using Cons.prems by (simp add: mark_nth)
  next
    case False
    then show ?thesis using Cons by simp
  qed
qed

lemma resumes_rejected:
  assumes "map_of (settled s) h = Some (Some e)"
    and "\<forall>i\<in>set js. i < length (tasks s) \<and>
           (tasks s ! i = Threw e \<or> tasks s ! i = AtEnd h Direct
            \<or> (\<exists>t. tasks s ! i = InLoop t (Some h) Direct))"
  shows "run cfg (map Resume js) s = s\<lparr>tasks := foldl (\<lambda>ts j. ts[j := Threw e]) (tasks s) js\<rparr>"
  using assms
proof (induction js arbitrary: s)
  case Nil
  then show ?case by simp
next
  case (Cons i js)
  define s' where "s' = s\<lparr>tasks := (tasks s)[i := Threw e]\<rparr>"
  have i: "i < length (tasks s)" and c: "tasks s ! i = Threw e \<or> tasks s ! i = AtEnd h Direct
      \<or> (\<exists>t. tasks s ! i = InLoop t (Some h) Direct)"
    using Cons.prems(2) by simp_all
  have st: "step cfg (Resume i) s = s'"
    using c
  proof (elim disjE exE)
    assume t: "tasks s ! i = Threw e"
    then have "(tasks s)[i := Threw e] = tasks s" by (metis list_update_id)
    then show ?thesis using t i by (simp add: s'_def resume_def)
  next
    assume "tasks s ! i = AtEnd h Direct"
    then show ?thesis
      using i Cons.prems(1) by (simp add: s'_def resume_def put_def after_throw_def)
  next
    fix t assume "tasks s ! i = InLoop t (Some h) Direct"
    then show ?thesis
      using i Cons.prems(1) by (simp add: s'_def resume_def put_def after_throw_def)
  qed
  have "run cfg (map Resume js) s' = s'\<lparr>tasks := foldl (\<lambda>ts j. ts[j := Threw e]) (tasks s') js\<rparr>"
  proof (rule Cons.IH)
    show "map_of (settled s') h = Some (Some e)" using Cons.prems(1) by (simp add: s'_def)
    show "\<forall>j\<in>set js. j < length (tasks s') \<and>
           (tasks s' ! j = Threw e \<or> tasks s' ! j = AtEnd h Direct
            \<or> (\<exists>t. tasks s' ! j = InLoop t (Some h) Direct))"
      using Cons.prems(2) by (auto simp: s'_def nth_list_update)
  qed
  then show ?case using st by (simp add: s'_def)
qed

lemma needsRefresh_tasks [simp]: "needsRefresh t (s\<lparr>tasks := ts\<rparr>) = needsRefresh t s"
  by (simp add: needsRefresh_def getCacheAgeSeconds_def split: option.splits)

lemma resumes_returned:
  assumes "map_of (settled s) h = Some None" and "\<not> refreshing s"
    and "\<forall>i\<in>set js. i < length (tasks s) \<and>
           (tasks s ! i = Returned (latestCache s) \<or> tasks s ! i = AtEnd h Direct
            \<or> (\<exists>t. tasks s ! i = InLoop t (Some h) Direct \<and> \<not> needsRefresh t s))"
  shows "run cfg (map Resume js) s
           = s\<lparr>tasks := foldl (\<lambda>ts j. ts[j := Returned (latestCache s)]) (tasks s) js\<rparr>"
  using assms
proof (induction js arbitrary: s)
  case Nil
  then show ?case by simp
next
  case (Cons i js)
  define s' where "s' = s\<lparr>tasks := (tasks s)[i := Returned (latestCache s)]\<rparr>"
  have i: "i < length (tasks s)" and c: "tasks s ! i = Returned (latestCache s) \<or> tasks s ! i = AtEnd h Direct
      \<or> (\<exists>t. tasks s ! i = InLoop t (Some h) Direct \<and> \<not> needsRefresh t s)"
    using Cons.prems(3) by simp_all
  have st: "step cfg (Resume i) s = s'"
    using c
  proof (elim disjE exE conjE)
    assume t: "tasks s ! i = Returned (latestCache s)"
    then have "(tasks s)[i := Returned (latestCache s)] = tasks s" by (metis list_update_id)
    then show ?thesis using t i by (simp add: s'_def resume_def)
  next
    assume "tasks s ! i = AtEnd h Direct"
    then show ?thesis
      using i Cons.prems(1) by (simp add: s'_def resume_def put_def after_ensure_def)
  next
    fix t assume "tasks s ! i = InLoop t (Some h) Direct" and "\<not> needsRefresh t s"
    then show ?thesis
      using i Cons.prems(1,2)
      by (simp add: s'_def resume_def put_def after_ensure_def ensureFreshCache_def)
  qed
  have "run cfg (map Resume js) s'
      = s'\<lparr>tasks := foldl (\<lambda>ts j. ts[j := Returned (latestCache s')]) (tasks s') js\<rparr>"
  proof (rule Cons.IH)
    show "map_of (settled s') h = Some None" using Cons.prems(1) by (simp add: s'_def)
    show "\<not> refreshing s'" using Cons.prems(2) by (simp add: s'_def)
    show "\<forall>j\<in>set js. j < length (tasks s') \<and>
           (tasks s' ! j = Returned (latestCache s') \<or> tasks s' ! j = AtEnd h Direct
            \<or> (\<exists>t. tasks s' ! j = InLoop t (Some h) Direct \<and> \<not> needsRefresh t s'))"
      using Cons.prems(3) by (auto simp: s'_def nth_list_update)
  qed
  then show ?case using st by (simp add: s'_def)
qed

lemma burst_state:
  assumes "\<not> refreshing s" and "needsRefresh ttl s"
  shows "run cfg (Call ttl # map Call ttls) s
           = (startRefresh s)\<lparr>tasks := tasks s @ AtEnd (generations s) Direct
                # map (\<lambda>t. InLoop t (Some (generations s)) Direct) ttls\<rparr>"
proof -
  define a where "a = (startRefresh s)\<lparr>tasks := tasks s @ [AtEnd (generations s) Direct]\<rparr>"
  have "step cfg (Call ttl) s = a" unfolding a_def using assms by (rule call_starts)
  moreover have "refreshing a" and "refreshPromise a = Some (generations s)"
    and "tasks a = tasks s @ [AtEnd (generations s) Direct]"
    by (simp_all add: a_def startRefresh_def)
  ultimately have "run cfg (Call ttl # map Call ttls) s
      = a\<lparr>tasks := (tasks s @ [AtEnd (generations s) Direct])
            @ map (\<lambda>t. InLoop t (Some (generations s)) Direct) ttls\<rparr>"
    using calls_join [of a cfg ttls] by simp
  then show ?thesis by (simp add: a_def)
qed

lemma burst_waiting:
  assumes "ts = old @ AtEnd g Direct # map (\<lambda>t. InLoop t (Some g) Direct) ttls"
    and "j \<in> set [length old..<length old + Suc (length ttls)]"
  shows "j < length ts \<and>
         (ts ! j = AtEnd g Direct \<or> (\<exists>t. t \<in> set ttls \<and> ts ! j = InLoop t (Some g) Direct))"
proof -
  obtain i where i: "j = length old + i" "i < Suc (length ttls)"
    using assms(2) by (auto simp: le_iff_add)
  have "ts ! j = (AtEnd g Direct # map (\<lambda>t. InLoop t (Some g) Direct) ttls) ! i"
    unfolding assms(1) i(1) by simp
  then have "ts ! j = AtEnd g Direct \<or> (\<exists>t. t \<in> set ttls \<and> ts ! j = InLoop t (Some g) Direct)"
    using i(2) by (cases i) auto
  moreover have "j < length ts" unfolding assms(1) i(1) using i(2) by simp
  ultimately show ?thesis by simp
qed

text \<open>
  C1, as claimed, fails. The cache holds a dump that is five seconds old. Two requests
  \<open>GET /dump?wait=true&ttl=0\<close> arrive: the first starts a refresh, the second joins it.
  The refresh takes one second and succeeds. The first handler goes on to serve the new
  dump. The second returns to the head of the loop, finds the new entry one second old,
  which is stale for \<open>ttl = 0\<close>, and starts a second \<open>performDump\<close>.
\<close>

theorem ensureFresh_burst_counterexample:
  "generations (run cfg_keep1
       [Request get_dump_wait_ttl0, Request get_dump_wait_ttl0, DumpExit 0 0 [] True,
        ClockSet 6000, CleanupDone 0 True, Resume 0, Resume 1]
       (start cfg_keep1 5000 [''dump-1.tar.gz''] [])) = 2
   \<and> tasks (run cfg_keep1
       [Request get_dump_wait_ttl0, Request get_dump_wait_ttl0, DumpExit 0 0 [] True,
        ClockSet 6000, CleanupDone 0 True, Resume 0, Resume 1]
       (start cfg_keep1 5000 [''dump-1.tar.gz''] []))
     = [Exists ''cache/dump-5000.tar.gz'', AtEnd 1 ForDump]
   \<and> jobs (run cfg_keep1
       [Request get_dump_wait_ttl0, Request get_dump_wait_ttl0, DumpExit 0 0 [] True,
        ClockSet 6000, CleanupDone 0 True, Resume 0, Resume 1]
       (start cfg_keep1 5000 [''dump-1.tar.gz''] []))
     = [(1, Dumping 6000)]"
  by code_simp

text \<open>
  C1, amended. In a state the server can reach, with no refresh running, let callers with
  the thresholds \<open>ttl\<close>, \<open>ttls\<close> call \<open>ensureFreshCache\<close> one after the other, the cache
  stale for the first. Then one \<open>performDump\<close> is started, the first caller awaits its
  promise on line 138 and every other caller awaits the same promise on line 125. When
  the refresh fails, in \<open>performDump\<close> or in the retention pass, no other generation is
  run and every caller throws the same error. When it succeeds and the new entry is not
  stale for the threshold of any joined caller at the time they go on, no other
  generation is run and every caller returns with the same new entry in \<open>latestCache\<close>.
\<close>

theorem ensureFresh_burst:
  assumes "s = run cfg evs (start cfg now files lk)"
    and "\<not> refreshing s" and "needsRefresh ttl s"
    and "s1 = run cfg (Call ttl # map Call ttls) s"
    and "g = generations s" and "n = length (tasks s)" and "k = Suc (length ttls)"
    and "entry = \<lparr>path = join_path (CACHE_DIR cfg) (dump_filename (clock s)), timestamp = clock s\<rparr>"
    and "c = cleanupOldDumps (KEEP_COUNT cfg) readdir_ok (locked s)
               (write_file (dump_filename (clock s)) (store s))"
  shows "generations s1 = Suc g \<and> jobs s1 = [(g, Dumping (clock s))]
       \<and> tasks s1 = tasks s @ AtEnd g Direct # map (\<lambda>t. InLoop t (Some g) Direct) ttls
       \<and> (performDump_result cfg (clock s) exitCode stderr write_ok = Inl e \<longrightarrow>
            generations (run cfg (DumpExit g exitCode stderr write_ok # resume_all n k) s1) = Suc g
          \<and> (\<forall>i<k. tasks (run cfg (DumpExit g exitCode stderr write_ok # resume_all n k) s1) ! (n + i)
                     = Threw e))
       \<and> (fst c = Some e \<longrightarrow>
            generations (run cfg (DumpExit g 0 stderr True # ClockSet t' # CleanupDone g readdir_ok
                           # resume_all n k) s1) = Suc g
          \<and> (\<forall>i<k. tasks (run cfg (DumpExit g 0 stderr True # ClockSet t' # CleanupDone g readdir_ok
                           # resume_all n k) s1) ! (n + i) = Threw e))
       \<and> (fst c = None \<and> (\<forall>t\<in>set ttls. \<not> js_gt (Fin (of_int (t' - clock s) / 1000)) t) \<longrightarrow>
            generations (run cfg (DumpExit g 0 stderr True # ClockSet t' # CleanupDone g readdir_ok
                           # resume_all n k) s1) = Suc g
          \<and> (\<forall>i<k. tasks (run cfg (DumpExit g 0 stderr True # ClockSet t' # CleanupDone g readdir_ok
                           # resume_all n k) s1) ! (n + i) = Returned (Some entry)))"
proof -
  define ws where "ws = AtEnd g Direct # map (\<lambda>t. InLoop t (Some g) Direct) ttls"
  have sf: "single_flight s" unfolding assms(1) by (rule single_flight_run [OF single_flight_start])
  have nojobs: "jobs s = []" using sf assms(2) by (rule idle_no_jobs)
  have s1: "s1 = (startRefresh s)\<lparr>tasks := tasks s @ ws\<rparr>"
    unfolding assms(4,5) ws_def using assms(2,3) by (rule burst_state)
  have f1: "generations s1 = Suc g" and f2: "jobs s1 = [(g, Dumping (clock s))]"
    and f3: "tasks s1 = tasks s @ ws" and f4: "store s1 = store s" and f5: "locked s1 = locked s"
    and f6: "latestCache s1 = latestCache s"
    unfolding s1 by (simp_all add: startRefresh_def nojobs assms(5))
  have wait: "j < length (tasks s1) \<and>
      (tasks s1 ! j = AtEnd g Direct \<or> (\<exists>t. t \<in> set ttls \<and> tasks s1 ! j = InLoop t (Some g) Direct))"
    if "j \<in> set [n..<n + k]" for j
    using burst_waiting [of "tasks s1" "tasks s" g ttls j] that f3
    unfolding ws_def assms(6,7) by simp
  have idx: "n + i \<in> set [n..<n + k] \<and> n + i < length (tasks s1)" if "i < k" for i
    using that f3 unfolding ws_def assms(6,7) by auto
  \<comment> \<open>every caller of a rejected refresh throws\<close>
  have rejected: "generations (run cfg (resume_all n k) s2) = Suc g
      \<and> (\<forall>i<k. tasks (run cfg (resume_all n k) s2) ! (n + i) = Threw e)"
    if a: "map_of (settled s2) g = Some (Some e)" and b: "tasks s2 = tasks s1"
      and c: "generations s2 = Suc g" for s2
  proof -
    have "run cfg (resume_all n k) s2
        = s2\<lparr>tasks := foldl (\<lambda>ts j. ts[j := Threw e]) (tasks s2) [n..<n + k]\<rparr>"
      unfolding resume_all_def
    proof (rule resumes_rejected [OF a])
      show "\<forall>i\<in>set [n..<n + k]. i < length (tasks s2) \<and>
           (tasks s2 ! i = Threw e \<or> tasks s2 ! i = AtEnd g Direct
            \<or> (\<exists>t. tasks s2 ! i = InLoop t (Some g) Direct))"
        unfolding b using wait by blast
    qed
    then show ?thesis using c idx b by (simp add: mark_member)
  qed
  \<comment> \<open>\<open>performDump\<close> fails\<close>
  have A: "generations (run cfg (DumpExit g exitCode stderr write_ok # resume_all n k) s1) = Suc g
      \<and> (\<forall>i<k. tasks (run cfg (DumpExit g exitCode stderr write_ok # resume_all n k) s1) ! (n + i)
                 = Threw e)"
    if r: "performDump_result cfg (clock s) exitCode stderr write_ok = Inl e"
  proof -
    have "step cfg (DumpExit g exitCode stderr write_ok) s1 = settle g (Some e) s1"
      using r f2 by simp
    moreover have "map_of (settled (settle g (Some e) s1)) g = Some (Some e)"
      and "tasks (settle g (Some e) s1) = tasks s1"
      and "generations (settle g (Some e) s1) = Suc g"
      using f1 by (simp_all add: settle_def)
    ultimately show ?thesis using rejected [of "settle g (Some e) s1"] by simp
  qed
  \<comment> \<open>\<open>performDump\<close> succeeds\<close>
  define p where "p = s1\<lparr>latestCache := Some entry,
      store := write_file (dump_filename (clock s)) (store s),
      jobs := [(g, Cleaning)], clock := t'\<rparr>"
  define q where "q = settle g (fst c) (p\<lparr>store := snd c\<rparr>)"
  have r: "performDump_result cfg (clock s) 0 stderr True = Inr entry"
    by (simp add: performDump_result_def assms(8))
  have "step cfg (DumpExit g 0 stderr True) s1
      = s1\<lparr>latestCache := Some entry, store := write_file (dump_filename (clock s)) (store s),
           jobs := [(g, Cleaning)]\<rparr>"
    using r f2 f4 by simp
  then have "step cfg (ClockSet t') (step cfg (DumpExit g 0 stderr True) s1) = p"
    by (simp add: p_def)
  moreover have "step cfg (CleanupDone g readdir_ok) p = q"
    unfolding q_def assms(9) by (simp add: p_def f5)
  ultimately have runq: "run cfg (DumpExit g 0 stderr True # ClockSet t' # CleanupDone g readdir_ok
      # resume_all n k) s1 = run cfg (resume_all n k) q"
    by simp
  have q1: "tasks q = tasks s1" and q2: "generations q = Suc g"
    and q3: "map_of (settled q) g = Some (fst c)" and q4: "\<not> refreshing q"
    and q5: "latestCache q = Some entry" and q6: "clock q = t'"
    unfolding q_def p_def using f1 by (simp_all add: settle_def)
  have B: "generations (run cfg (resume_all n k) q) = Suc g
      \<and> (\<forall>i<k. tasks (run cfg (resume_all n k) q) ! (n + i) = Threw e)"
    if "fst c = Some e"
    using rejected [of q] q1 q2 q3 that by simp
  have C: "generations (run cfg (resume_all n k) q) = Suc g
      \<and> (\<forall>i<k. tasks (run cfg (resume_all n k) q) ! (n + i) = Returned (Some entry))"
    if ok: "fst c = None" and fresh: "\<forall>t\<in>set ttls. \<not> js_gt (Fin (of_int (t' - clock s) / 1000)) t"
  proof -
    have nr: "\<not> needsRefresh t q" if "t \<in> set ttls" for t
      using fresh that q5 q6
      by (simp add: needsRefresh_def getCacheAgeSeconds_def age_seconds_def assms(8))
    have "run cfg (resume_all n k) q
        = q\<lparr>tasks := foldl (\<lambda>ts j. ts[j := Returned (latestCache q)]) (tasks q) [n..<n + k]\<rparr>"
      unfolding resume_all_def
    proof (rule resumes_returned [OF _ q4])
      show "map_of (settled q) g = Some None" using q3 ok by simp
      show "\<forall>i\<in>set [n..<n + k]. i < length (tasks q) \<and>
           (tasks q ! i = Returned (latestCache q) \<or> tasks q ! i = AtEnd g Direct
            \<or> (\<exists>t. tasks q ! i = InLoop t (Some g) Direct \<and> \<not> needsRefresh t q))"
        unfolding q1 using wait nr by blast
    qed
    then show ?thesis using q2 q5 idx q1 by (simp add: mark_member)
  qed
  show ?thesis
    unfolding runq using f1 f2 f3 A B C unfolding ws_def by blast
qed

theorem ensureFresh_burst_witness:
  "\<not> refreshing (start cfg_keep1 5000 [''dump-1.tar.gz''] [])
   \<and> needsRefresh (Fin 0) (start cfg_keep1 5000 [''dump-1.tar.gz''] [])
   \<and> generations (run cfg_keep1 (Call (Fin 0) # map Call [Fin 3600])
        (start cfg_keep1 5000 [''dump-1.tar.gz''] [])) = 1
   \<and> generations (run cfg_keep1
        (DumpExit 0 0 [] True # ClockSet 6000 # CleanupDone 0 True # resume_all 0 2)
        (run cfg_keep1 (Call (Fin 0) # map Call [Fin 3600])
           (start cfg_keep1 5000 [''dump-1.tar.gz''] []))) = 1
   \<and> tasks (run cfg_keep1
        (DumpExit 0 0 [] True # ClockSet 6000 # CleanupDone 0 True # resume_all 0 2)
        (run cfg_keep1 (Call (Fin 0) # map Call [Fin 3600])
           (start cfg_keep1 5000 [''dump-1.tar.gz''] []))) ! 1
       = Returned (Some \<lparr>path = ''cache/dump-5000.tar.gz'', timestamp = 5000\<rparr>)
   \<and> tasks (run cfg_keep1 (DumpExit 0 1 ''boom'' True # resume_all 0 2)
        (run cfg_keep1 (Call (Fin 0) # map Call [Fin 3600])
           (start cfg_keep1 5000 [''dump-1.tar.gz''] []))) ! 1
       = Threw (PgDumpFailed 1 ''boom'')"
proof -
  define s where "s = start cfg_keep1 5000 [''dump-1.tar.gz''] []"
  define s1 where "s1 = run cfg_keep1 (Call (Fin 0) # map Call [Fin 3600]) s"
  define c where "c = cleanupOldDumps (KEEP_COUNT cfg_keep1) True (locked s)
      (write_file (dump_filename (clock s)) (store s))"
  have s: "s = \<lparr>latestCache = Some \<lparr>path = ''cache/dump-1.tar.gz'', timestamp = 1\<rparr>,
      refreshing = False, refreshPromise = None, clock = 5000, store = [''dump-1.tar.gz''],
      locked = [], jobs = [], settled = [], tasks = [], generations = 0, exited = False\<rparr>"
    unfolding s_def by code_simp
  have h1: "s = run cfg_keep1 [] (start cfg_keep1 5000 [''dump-1.tar.gz''] [])"
    by (simp add: s_def run_def)
  have h2: "\<not> refreshing s" and g: "0 = generations s" and n: "0 = length (tasks s)"
    and cl: "clock s = 5000"
    unfolding s by simp_all
  have h3: "needsRefresh (Fin 0) s" unfolding s by code_simp
  have k: "2 = Suc (length [Fin 3600])" by simp
  have f: "dump_filename 5000 = ''dump-5000.tar.gz''" by code_simp
  have en: "\<lparr>path = ''cache/dump-5000.tar.gz'', timestamp = 5000\<rparr>
      = \<lparr>path = join_path (CACHE_DIR cfg_keep1) (dump_filename (clock s)), timestamp = clock s\<rparr>"
    unfolding cl f by (simp add: cfg_keep1_def join_path_def)
  have ok: "fst c = None" unfolding c_def s by code_simp
  have fresh: "\<forall>t\<in>set [Fin 3600]. \<not> js_gt (Fin (of_int (6000 - clock s) / 1000)) t"
    unfolding cl by simp
  have bad: "performDump_result cfg_keep1 (clock s) 1 ''boom'' True = Inl (PgDumpFailed 1 ''boom'')"
    by (simp add: performDump_result_def)
  note T = ensureFresh_burst [OF h1 h2 h3 s1_def g n k en c_def]
  note T1 = T [where exitCode = 1 and stderr = "''boom''" and write_ok = True
      and e = "PgDumpFailed 1 ''boom''"]
  note T2 = T [where stderr = "[]" and t' = 6000]
  have i: "(1::nat) < 2" by simp
  have "generations s1 = Suc 0" using T1 by blast
  moreover have "generations (run cfg_keep1
        (DumpExit 0 0 [] True # ClockSet 6000 # CleanupDone 0 True # resume_all 0 2) s1) = Suc 0
      \<and> tasks (run cfg_keep1
        (DumpExit 0 0 [] True # ClockSet 6000 # CleanupDone 0 True # resume_all 0 2) s1) ! (0 + 1)
        = Returned (Some \<lparr>path = ''cache/dump-5000.tar.gz'', timestamp = 5000\<rparr>)"
    using T2 ok fresh i by blast
  moreover have "tasks (run cfg_keep1 (DumpExit 0 1 ''boom'' True # resume_all 0 2) s1) ! (0 + 1)
        = Threw (PgDumpFailed 1 ''boom'')"
    using T1 bad i by blast
  ultimately show ?thesis
    unfolding s_def [symmetric] s1_def [symmetric] using h2 h3 by simp
qed

end
